theory Spec2Isabelle
  imports Main
begin

section \<open>docgen: lexical primitives\<close>

text \<open>
  The program is \<^verbatim>\<open>src/main.cpp\<close>. A \<^verbatim>\<open>std::string\<close> is a \<^typ>\<open>string\<close> (a list of bytes), a
  \<^verbatim>\<open>size_t\<close> is a \<^typ>\<open>nat\<close> below \<open>2 ^ 64\<close>; the subtractions of the source that can go
  below zero are written with \<open>size_sub\<close>, which wraps as the unsigned subtraction does.
  What ends the process abnormally is a value of \<open>stop\<close>: an uncaught C++ exception
  (the program has no \<^verbatim>\<open>try\<close> block, so an exception reaches \<^verbatim>\<open>std::terminate\<close>), a read
  outside a string's storage, or an alias expansion nested deeper than the model follows.
\<close>

datatype stop =
    Exn_out_of_range       \<comment> \<open>\<^verbatim>\<open>std::out_of_range\<close>, thrown by \<^verbatim>\<open>substr\<close> and by \<^verbatim>\<open>std::stoi\<close>\<close>
  | Exn_invalid_argument   \<comment> \<open>\<^verbatim>\<open>std::invalid_argument\<close>, thrown by \<^verbatim>\<open>std::stoi\<close>\<close>
  | Bad_read               \<comment> \<open>\<^verbatim>\<open>s[i]\<close> with \<open>i > s.size()\<close>: undefined behaviour\<close>
  | Still_expanding        \<comment> \<open>the alias recursion has not returned within the given depth\<close>

text \<open>
  The character classes are those of the "C" locale, in which the program runs (it never
  calls \<^verbatim>\<open>setlocale\<close>); a byte above 127 is in none of them.
\<close>

abbreviation NL :: char where "NL \<equiv> CHR 0x0A"
abbreviation TAB :: char where "TAB \<equiv> CHR 0x09"
abbreviation DQ :: char where "DQ \<equiv> CHR 0x22"
abbreviation BSL :: char where "BSL \<equiv> CHR 0x5C"
abbreviation NUL :: char where "NUL \<equiv> CHR 0x00"

definition isspace :: "char \<Rightarrow> bool" where
  "isspace c = (c = CHR '' '' \<or> c = TAB \<or> c = NL \<or> c = CHR 0x0B \<or> c = CHR 0x0C \<or> c = CHR 0x0D)"

definition isdigit :: "char \<Rightarrow> bool" where
  "isdigit c = (let n = (of_char c :: nat) in 48 \<le> n \<and> n \<le> 57)"

definition isupper :: "char \<Rightarrow> bool" where
  "isupper c = (let n = (of_char c :: nat) in 65 \<le> n \<and> n \<le> 90)"

definition islower :: "char \<Rightarrow> bool" where
  "islower c = (let n = (of_char c :: nat) in 97 \<le> n \<and> n \<le> 122)"

definition isalnum :: "char \<Rightarrow> bool" where
  "isalnum c = (isdigit c \<or> isupper c \<or> islower c)"

definition size_sub :: "nat \<Rightarrow> nat \<Rightarrow> nat" where
  "size_sub a b = (if b \<le> a then a - b else 2 ^ 64 - (b - a))"

text \<open>\<^verbatim>\<open>s[i]\<close> where the source has checked nothing: the terminating NUL at \<open>i = size\<close>,
  no defined value beyond.\<close>

definition rd :: "string \<Rightarrow> nat \<Rightarrow> stop + char" where
  "rd s i = (if i < length s then Inr (s ! i) else if i = length s then Inr NUL else Inl Bad_read)"

text \<open>\<^verbatim>\<open>s[i]\<close> at an index the source keeps at most \<open>size\<close>.\<close>

definition at0 :: "string \<Rightarrow> nat \<Rightarrow> char" where
  "at0 s i = (if i < length s then s ! i else NUL)"

text \<open>\<^verbatim>\<open>s.substr(pos, n)\<close>: throws when \<open>pos > size\<close>, otherwise at most \<open>n\<close> characters.\<close>

definition substr :: "string \<Rightarrow> nat \<Rightarrow> nat \<Rightarrow> stop + string" where
  "substr s pos n = (if length s < pos then Inl Exn_out_of_range else Inr (take n (drop pos s)))"

text \<open>\<^verbatim>\<open>s.substr(pos)\<close>.\<close>

definition substr_from :: "string \<Rightarrow> nat \<Rightarrow> stop + string" where
  "substr_from s pos = (if length s < pos then Inl Exn_out_of_range else Inr (drop pos s))"

text \<open>The loop \<^verbatim>\<open>while (e < s.size() && !stop(s[e])) e++\<close>, used all over the source.\<close>

function scan_fwd :: "(char \<Rightarrow> bool) \<Rightarrow> string \<Rightarrow> nat \<Rightarrow> nat" where
  "scan_fwd stp s e = (if e < length s \<and> \<not> stp (s ! e) then scan_fwd stp s (Suc e) else e)"
  by pat_completeness auto
termination
  by (relation "measure (\<lambda>(stp, s, e). length s - e)") auto

declare scan_fwd.simps [simp del]

text \<open>\<^verbatim>\<open>s.find(pat, pos)\<close>; \<open>None\<close> is \<^verbatim>\<open>npos\<close>.\<close>

function find_str :: "string \<Rightarrow> string \<Rightarrow> nat \<Rightarrow> nat option" where
  "find_str s pat pos =
     (if length s < pos + length pat then None
      else if take (length pat) (drop pos s) = pat then Some pos
      else find_str s pat (Suc pos))"
  by pat_completeness auto
termination
  by (relation "measure (\<lambda>(s, pat, pos). Suc (length s) - pos)") auto

declare find_str.simps [simp del]

subsection \<open>strip (lines 64-75)\<close>

text \<open>The second loop counts \<open>end\<close> down from the size; the first is \<open>scan_fwd\<close>. Both
  indices stay within the size, so the \<^verbatim>\<open>substr\<close> of line 74 cannot throw; when the string is
  all white space \<open>end - start\<close> wraps and the result is the empty rest.\<close>

fun strip_end :: "string \<Rightarrow> nat \<Rightarrow> nat" where
  "strip_end s 0 = 0"
| "strip_end s (Suc e) = (if isspace (s ! e) then strip_end s e else Suc e)"

definition strip :: "string \<Rightarrow> string" where
  "strip s =
     (let start = scan_fwd (\<lambda>c. \<not> isspace c) s 0;
          endp = strip_end s (length s)
      in take (size_sub endp start) (drop start s))"

subsection \<open>simplify\_whitespace (lines 77-95)\<close>

text \<open>The inner loop \<^verbatim>\<open>while (std::isspace(s[i])) i++\<close> has no bound check of its own: it stops
  at the terminating NUL, which is where \<open>scan_fwd\<close> stops.\<close>

function sw_loop :: "string \<Rightarrow> nat \<Rightarrow> string \<Rightarrow> string" where
  "sw_loop s i out =
     (if i < length s then
        (if isspace (s ! i)
         then sw_loop s (scan_fwd (\<lambda>c. \<not> isspace c) s (Suc i)) (out @ '' '')
         else sw_loop s (Suc i) (out @ [s ! i]))
      else out)"
  by pat_completeness auto

lemma scan_fwd_ge: "e \<le> scan_fwd stp s e"
proof (induction stp s e rule: scan_fwd.induct)
  case (1 stp s e)
  then show ?case
    by (subst scan_fwd.simps) (auto simp: Suc_leD)
qed

lemma scan_fwd_le: "scan_fwd stp s e \<le> max e (length s)"
proof (induction stp s e rule: scan_fwd.induct)
  case (1 stp s e)
  then show ?case
    by (subst scan_fwd.simps) (auto simp: max_def split: if_splits)
qed

termination sw_loop
proof (relation "measure (\<lambda>(s, i, out). length s - i)")
  fix s :: string and i :: nat and out :: string
  assume "i < length s"
  moreover have "Suc i \<le> scan_fwd (\<lambda>c. \<not> isspace c) s (Suc i)"
    by (rule scan_fwd_ge)
  ultimately show "((s, scan_fwd (\<lambda>c. \<not> isspace c) s (Suc i), out @ '' ''), (s, i, out))
      \<in> measure (\<lambda>(s, i, out). length s - i)"
    by simp
qed auto

declare sw_loop.simps [simp del]

definition simplify_whitespace :: "string \<Rightarrow> string" where
  "simplify_whitespace s = strip (sw_loop s 0 [])"

subsection \<open>parse\_args (lines 97-139)\<close>

text \<open>
  The three depth counters are C++ \<^verbatim>\<open>int\<close>s; they are unbounded integers here, which agrees
  with the source on every buffer of fewer than \<open>2 ^ 31\<close> characters (signed overflow has
  no defined result in C++). \<open>bracket_chain\<close> is the \<^verbatim>\<open>if/else if\<close> chain of lines 111-126
  on the depths \<open>(parenDepth, bracketDepth, braceDepth)\<close>; its second result tells whether
  the comma branch was taken.
\<close>

definition bracket_chain :: "char \<Rightarrow> int \<times> int \<times> int \<Rightarrow> (int \<times> int \<times> int) \<times> bool" where
  "bracket_chain c d =
     (case d of (parenDepth, bracketDepth, braceDepth) \<Rightarrow>
        if c = CHR ''('' then ((parenDepth + 1, bracketDepth, braceDepth), False)
        else if c = CHR '')'' then ((parenDepth - 1, bracketDepth, braceDepth), False)
        else if c = CHR ''['' then ((parenDepth, bracketDepth + 1, braceDepth), False)
        else if c = CHR '']'' then ((parenDepth, bracketDepth - 1, braceDepth), False)
        else if c = CHR ''{'' then ((parenDepth, bracketDepth, braceDepth + 1), False)
        else if c = CHR ''}'' then ((parenDepth, bracketDepth, braceDepth - 1), False)
        else if c = CHR '','' \<and> parenDepth = 0 \<and> bracketDepth = 0 \<and> braceDepth = 0
             then (d, True)
        else (d, False))"

text \<open>The \<^verbatim>\<open>for\<close> loop and the statement after it. The result is the vector and the value
  \<^verbatim>\<open>index\<close> has when the function returns (it is a reference parameter).\<close>

function parse_args_loop ::
  "string \<Rightarrow> nat \<Rightarrow> nat \<Rightarrow> nat \<Rightarrow> int \<times> int \<times> int \<Rightarrow> bool \<Rightarrow> string list
     \<Rightarrow> stop + (string list \<times> nat)" where
  "parse_args_loop src index i lastPos d inQuote args =
     (if i < length src then
        (let q = (if src ! i = DQ then \<not> inQuote else inQuote) in
         if q then parse_args_loop src index (Suc i) lastPos d q args
         else
           (case bracket_chain (src ! i) d of (d', comma) \<Rightarrow>
              (case (if comma
                     then (case substr src (lastPos + 1) (size_sub (size_sub i lastPos) 1) of
                             Inl e \<Rightarrow> Inl e
                           | Inr a \<Rightarrow> Inr (args @ [strip a], i))
                     else Inr (args, lastPos)) of
                 Inl e \<Rightarrow> Inl e
               | Inr (args', lastPos') \<Rightarrow>
                   if fst d' = - 1 then
                     (let poss = scan_fwd (\<lambda>c. c = CHR '')'') src i in
                      case substr src (lastPos' + 1) (size_sub (size_sub poss lastPos') 1) of
                        Inl e \<Rightarrow> Inl e
                      | Inr a \<Rightarrow> Inr (args' @ [strip a], poss))
                   else parse_args_loop src index (Suc i) lastPos' d' q args')))
      else
        (case substr src (lastPos + 1) (size_sub (size_sub (length src) lastPos) 2) of
           Inl e \<Rightarrow> Inl e
         | Inr a \<Rightarrow> Inr (args @ [strip a], index)))"
  by pat_completeness auto
termination
  by (relation "measure (\<lambda>(src, index, i, r). length src - i)") auto

declare parse_args_loop.simps [simp del]

definition parse_args :: "string \<Rightarrow> nat \<Rightarrow> stop + (string list \<times> nat)" where
  "parse_args src index = parse_args_loop src index (index + 1) index (0, 0, 0) False []"


section \<open>The document context\<close>

text \<open>
  \<^verbatim>\<open>struct DocContext\<close> (lines 48-56). The field \<^verbatim>\<open>outputDir\<close> is used by the source-command
  interpreter only to look for \<^verbatim>\<open>outputDir/commands/<name>.so\<close>; here it is \<open>modules\<close>, what
  the directory holds for each name: nothing, a file that does not load, a library without
  the mangled symbol, or a library whose entry point is the given function (taken to be
  pure and to return). \<open>cerr\<close> is not a field of the struct: it is what has been written to
  \<^verbatim>\<open>std::cerr\<close> so far, one entry per message.
\<close>

datatype module = Absent | Unloadable | No_entry | Entry "string \<Rightarrow> string list \<Rightarrow> string"

record DocContext =
  sections :: "string \<rightharpoonup> string"
  mainSection :: string
  modules :: "string \<Rightarrow> module"
  inputDocgen :: string
  currentSection :: string
  "output" :: string
  aliases :: "string \<rightharpoonup> string"
  cerr :: "string list"

record CommentData =
  cm_index :: nat
  cm_end_index :: nat
  cm_comment :: string

definition report :: "string \<Rightarrow> DocContext \<Rightarrow> DocContext" where
  "report msg context = context\<lparr>cerr := cerr context @ [msg]\<rparr>"

text \<open>\<^verbatim>\<open>sections[currentSection] += c\<close> creates the buffer when it is not there (lines 141-153).\<close>

definition process_char :: "char \<Rightarrow> DocContext \<Rightarrow> DocContext" where
  "process_char c context =
     (if currentSection context = [] then context\<lparr>mainSection := mainSection context @ [c]\<rparr>
      else context\<lparr>sections := (sections context)(currentSection context \<mapsto>
             (case sections context (currentSection context) of None \<Rightarrow> [] | Some b \<Rightarrow> b) @ [c])\<rparr>)"

definition process_string :: "string \<Rightarrow> DocContext \<Rightarrow> DocContext" where
  "process_string s context = fold process_char s context"

text \<open>The lambda \<^verbatim>\<open>process_str\<close> of lines 163-166.\<close>

definition process_str :: "bool \<Rightarrow> string \<Rightarrow> DocContext \<Rightarrow> DocContext" where
  "process_str simplify s context =
     (if simplify then process_string (simplify_whitespace s) context
      else process_string s context)"

section \<open>Source commands (lines 157-386)\<close>

text \<open>\<^verbatim>\<open>while (e > 0 && p(s[e-1])) e--\<close>: the read is not guarded by the size.\<close>

fun scan_back :: "(char \<Rightarrow> bool) \<Rightarrow> string \<Rightarrow> nat \<Rightarrow> stop + nat" where
  "scan_back p s 0 = Inr 0"
| "scan_back p s (Suc e) =
     (case rd s e of Inl x \<Rightarrow> Inl x
      | Inr c \<Rightarrow> if p c then scan_back p s e else Inr (Suc e))"

text \<open>Line 294, \<^verbatim>\<open>while (start > 0 && (std::isalnum(src[start-1])) || src[start-1] == '_')\<close>:
  the disjunction is outside the guard, so at \<open>start = 0\<close> the loop reads \<^verbatim>\<open>src[SIZE_MAX]\<close>.\<close>

fun class_start :: "string \<Rightarrow> nat \<Rightarrow> stop + nat" where
  "class_start s 0 = Inl Bad_read"
| "class_start s (Suc e) =
     (case rd s e of Inl x \<Rightarrow> Inl x
      | Inr c \<Rightarrow> if isalnum c \<or> c = CHR ''_'' then class_start s e else Inr (Suc e))"

text \<open>The parenthesis matcher of lines 234-244 and 259-269.\<close>

function paren_end :: "string \<Rightarrow> nat \<Rightarrow> int \<Rightarrow> nat" where
  "paren_end src e parenDepth =
     (if e < length src then
        (let d = (if src ! e = CHR ''('' then parenDepth + 1
                  else if src ! e = CHR '')'' then parenDepth - 1 else parenDepth)
         in if d = 0 then e else paren_end src (Suc e) d)
      else e)"
  by pat_completeness auto
termination
  by (relation "measure (\<lambda>(src, e, d). length src - e)") auto

declare paren_end.simps [simp del]

text \<open>\<^verbatim>\<open>std::stoi\<close> in base 10: leading white space, an optional sign, then digits; whatever
  follows the digits is ignored. No digit: \<^verbatim>\<open>std::invalid_argument\<close>; a value that does not
  fit a 32-bit \<^verbatim>\<open>int\<close>: \<^verbatim>\<open>std::out_of_range\<close>.\<close>

definition digits_val :: "string \<Rightarrow> int" where
  "digits_val ds = foldl (\<lambda>a c. 10 * a + (int (of_char c) - 48)) 0 ds"

definition stoi :: "string \<Rightarrow> stop + int" where
  "stoi s =
     (let s1 = dropWhile isspace s;
          neg = (s1 \<noteq> [] \<and> hd s1 = CHR ''-'');
          s2 = (if s1 \<noteq> [] \<and> (hd s1 = CHR ''-'' \<or> hd s1 = CHR ''+'') then tl s1 else s1);
          ds = takeWhile isdigit s2;
          v = (if neg then - digits_val ds else digits_val ds)
      in if ds = [] then Inl Exn_invalid_argument
         else if v < - (2 ^ 31) \<or> 2 ^ 31 - 1 < v then Inl Exn_out_of_range
         else Inr v)"

text \<open>The value an \<^verbatim>\<open>int\<close> takes from a \<^verbatim>\<open>size_t\<close> (line 275: \<^verbatim>\<open>argNum = argss.size() + argNum\<close>
  is computed in \<^verbatim>\<open>size_t\<close> and stored in an \<^verbatim>\<open>int\<close>).\<close>

definition int_of_size :: "int \<Rightarrow> int" where
  "int_of_size v = (let m = v mod 2 ^ 32 in if 2 ^ 31 \<le> m then m - 2 ^ 32 else m)"

text \<open>\<^verbatim>\<open>fs::path(filename).filename().string()\<close>: what follows the last separator.\<close>

definition path_filename :: "string \<Rightarrow> string" where
  "path_filename p = rev (takeWhile (\<lambda>c. c \<noteq> CHR ''/'') (rev p))"

text \<open>The text each built-in computes from the source after the comment; \<open>e\<close> is
  \<^verbatim>\<open>comment.end_index\<close>.\<close>

definition next_line :: "string \<Rightarrow> nat \<Rightarrow> stop + string" where
  "next_line src e =
     (let endp = scan_fwd (\<lambda>c. c = NL) src (e + 1)
      in map_sum id strip (substr src e (size_sub endp e)))"

text \<open>Lines 183-193: where the identifier before the bracket starts and ends.\<close>

definition func_name_span :: "string \<Rightarrow> nat \<Rightarrow> stop + (nat \<times> nat)" where
  "func_name_span src e =
     (case scan_back (\<lambda>c. \<not> isalnum c \<and> c \<noteq> CHR ''_'') src
             (scan_fwd (\<lambda>c. c = CHR ''('') src (e + 1)) of
        Inl x \<Rightarrow> Inl x
      | Inr endp \<Rightarrow>
          map_sum id (\<lambda>start. (start, endp)) (scan_back (\<lambda>c. isalnum c \<or> c = CHR ''_'') src endp))"

definition func_name :: "string \<Rightarrow> nat \<Rightarrow> stop + string" where
  "func_name src e =
     (case func_name_span src e of
        Inl x \<Rightarrow> Inl x
      | Inr (start, endp) \<Rightarrow>
         (case substr src start (size_sub endp start) of
            Inl x \<Rightarrow> Inl x
          | Inr a \<Rightarrow>
             if strip a = ''operator''
             then (let endq = scan_fwd (\<lambda>c. c = CHR ''('') src endp
                   in map_sum id strip (substr src start (size_sub endq start)))
             else Inr (strip a)))"

definition next_decl :: "string \<Rightarrow> nat \<Rightarrow> stop + string" where
  "next_decl src e =
     (let endp = scan_fwd (\<lambda>c. c = CHR '';'' \<or> c = CHR ''='' \<or> c = CHR ''{'') src (e + 1)
      in map_sum id (\<lambda>a. strip a @ '';'') (substr src (e + 1) (size_sub (size_sub endp e) 1)))"

definition func_ret :: "string \<Rightarrow> nat \<Rightarrow> stop + string" where
  "func_ret src e =
     (let start = e + 1 in
      case scan_back (\<lambda>c. \<not> isspace c) src (scan_fwd (\<lambda>c. c = CHR ''('') src start) of
        Inl x \<Rightarrow> Inl x
      | Inr endp \<Rightarrow> map_sum id strip (substr src start (size_sub endp start)))"

definition func_args :: "string \<Rightarrow> nat \<Rightarrow> stop + string" where
  "func_args src e =
     (let start = scan_fwd (\<lambda>c. c = CHR ''('') src (e + 1);
          endp = paren_end src start 0
      in map_sum id strip (substr src (start + 1) (size_sub (size_sub endp start) 1)))"

text \<open>Lines 253-272: the argument list of the declaration, split.\<close>

definition func_arg_list :: "string \<Rightarrow> nat \<Rightarrow> stop + string list" where
  "func_arg_list src e =
     (let start = scan_fwd (\<lambda>c. c = CHR ''('') src (e + 1);
          endp = paren_end src start 0
      in case substr src start (size_sub endp start + 1) of
           Inl x \<Rightarrow> Inl x
         | Inr argList \<Rightarrow> map_sum id fst (parse_args argList 0))"

definition class_name :: "string \<Rightarrow> nat \<Rightarrow> stop + string" where
  "class_name src e =
     (case scan_back isspace src
             (scan_fwd (\<lambda>c. c = CHR ''{'' \<or> c = CHR '':'' \<or> c = CHR '';'') src (e + 1)) of
        Inl x \<Rightarrow> Inl x
      | Inr endp \<Rightarrow>
         (case class_start src endp of
            Inl x \<Rightarrow> Inl x
          | Inr start \<Rightarrow> map_sum id strip (substr src start (size_sub endp start))))"

definition next_macro :: "string \<Rightarrow> nat \<Rightarrow> stop + string" where
  "next_macro src e =
     (let start = scan_fwd (\<lambda>c. c = CHR ''#'') src (e + 1);
          endp = scan_fwd (\<lambda>c. c = CHR '')'') src start
      in map_sum id (\<lambda>a. strip a @ '')'') (substr src start (size_sub endp start)))"

text \<open>Lines 340-354: the pseudo-source an alias is reprocessed as.\<close>

definition alias_source :: "string \<Rightarrow> string \<Rightarrow> nat \<Rightarrow> stop + string" where
  "alias_source replacement src e =
     (let start = e + 1;
          endp = (case find_str src ''/*'' start of None \<Rightarrow> length src | Some p \<Rightarrow> p);
          endp2 = (case find_str src ''//'' start of None \<Rightarrow> length src | Some p \<Rightarrow> p);
          endp = (if endp2 < endp then endp2 else endp)
      in map_sum id (\<lambda>next_scr. ''/* @DOC'' @ [NL] @ replacement @ [NL] @ ''@END'' @ [NL] @ ''*/'' @ [NL] @ next_scr)
           (substr src start (size_sub endp start)))"

definition emit :: "bool \<Rightarrow> stop + string \<Rightarrow> DocContext \<Rightarrow> stop + DocContext" where
  "emit simplify r context = map_sum id (\<lambda>a. process_str simplify a context) r"


text \<open>Lines 247-282, \<^verbatim>\<open>FUNC_ARG\<close>.\<close>

definition func_arg :: "bool \<Rightarrow> string list \<Rightarrow> string \<Rightarrow> nat \<Rightarrow> DocContext \<Rightarrow> stop + DocContext" where
  "func_arg simplify args src e context =
     (if length args \<noteq> 1
      then Inr (report (''Error: FUNC_ARG requires 1 argument'' @ [NL]) context)
      else
        (case func_arg_list src e of
           Inl x \<Rightarrow> Inl x
         | Inr argss \<Rightarrow>
            (case stoi (args ! 0) of
               Inl x \<Rightarrow> Inl x
             | Inr n \<Rightarrow>
                (let argNum = (if n < 0 then int_of_size ((int (length argss) + n) mod 2 ^ 64)
                               else n)
                 in if argNum < 0 \<or> int (length argss) \<le> argNum
                    then Inr (report (''Error: Argument '' @ args ! 0 @ '' not found'' @ [NL]) context)
                    else Inr (process_str simplify (argss ! nat argNum) context)))))"

text \<open>Lines 357-385: a command that is neither built in nor an alias.\<close>

definition extension_command ::
  "bool \<Rightarrow> string \<Rightarrow> string list \<Rightarrow> string \<Rightarrow> nat \<Rightarrow> DocContext \<Rightarrow> stop + DocContext" where
  "extension_command simplify command args src e context =
     (case modules context command of
        Absent \<Rightarrow> Inr (report (''Error: Unknown command '' @ command @ [NL]) context)
      | Unloadable \<Rightarrow> Inr (report (''Error: Could not load command '' @ command @ [NL]) context)
      | No_entry \<Rightarrow> Inr (report (''Error: Could not find function '' @ command @ [NL]) context)
      | Entry func \<Rightarrow>
          map_sum id (\<lambda>code_after_comment. process_str simplify (func code_after_comment args) context)
            (substr_from src (e + 1)))"

text \<open>
  \<open>process_src_command\<close> calls \<open>process_source\<close> for an alias, and \<open>process_source\<close> calls it
  for every command. The model cuts this recursion at the call for the alias: the function
  takes \<open>process_source\<close> as its first argument \<open>reenter\<close>.
\<close>

fun process_src_command ::
  "(string \<Rightarrow> DocContext \<Rightarrow> bool \<Rightarrow> string \<Rightarrow> stop + DocContext)
     \<Rightarrow> string \<Rightarrow> string list \<Rightarrow> DocContext \<Rightarrow> CommentData \<Rightarrow> string \<Rightarrow> bool \<Rightarrow> string
     \<Rightarrow> stop + DocContext" where
  "process_src_command reenter command0 args context comment src simplify filename =
     (let stripped = strip command0;
          prefixed = (at0 stripped 0 = CHR ''S'' \<and> at0 stripped 1 = CHR ''_'');
          command = (if prefixed then drop 2 stripped else stripped);
          simplify' = (simplify \<or> prefixed);
          e = cm_end_index comment
      in if command = ''SECTION''
           then Inr (context\<lparr>currentSection := (if args = [] then [] else args ! 0)\<rparr>)
         else if command = ''NEXT_LINE'' then emit simplify' (next_line src e) context
         else if command = ''FUNC_NAME'' then emit simplify' (func_name src e) context
         else if command = ''NEXT_DECL'' then emit simplify' (next_decl src e) context
         else if command = ''FUNC_RET'' then emit simplify' (func_ret src e) context
         else if command = ''FUNC_ARGS'' then emit simplify' (func_args src e) context
         else if command = ''FUNC_ARG'' then func_arg simplify' args src e context
         else if command = ''CLASS_NAME'' then emit simplify' (class_name src e) context
         else if command = ''NEXT_MACRO'' then emit simplify' (next_macro src e) context
         else if command = ''FILE_NAME'' then Inr (process_str simplify' (path_filename filename) context)
         else if command = ''SIMPLIFY'' \<or> command = ''S'' then
           (case args of
              [] \<Rightarrow> Inr (report (''Wrong number of arguments in SIMPLIFY!'' @ [NL]) context)
            | a # rest \<Rightarrow> process_src_command reenter a rest context comment src True filename)
         else
           (case aliases context command of
              Some replacement \<Rightarrow>
                (case alias_source replacement src e of
                   Inl x \<Rightarrow> Inl x
                 | Inr pseudo \<Rightarrow> reenter pseudo context False filename)
            | None \<Rightarrow> extension_command simplify' command args src e context))"

declare process_src_command.simps [simp del]


section \<open>process\_source (lines 388-465)\<close>

lemma find_str_Some:
  "find_str s pat pos = Some e \<Longrightarrow>
     pos \<le> e \<and> e + length pat \<le> length s \<and> take (length pat) (drop e s) = pat"
proof (induction s pat pos rule: find_str.induct)
  case (1 s pat pos)
  from "1.prems" have "\<not> length s < pos + length pat"
    by (subst (asm) find_str.simps) (simp split: if_splits)
  show ?case
  proof (cases "take (length pat) (drop pos s) = pat")
    case True
    with "1.prems" \<open>\<not> length s < pos + length pat\<close> show ?thesis
      by (subst (asm) find_str.simps) simp
  next
    case False
    with "1.prems" \<open>\<not> length s < pos + length pat\<close> have "find_str s pat (Suc pos) = Some e"
      by (subst (asm) find_str.simps) simp
    with "1.IH" False \<open>\<not> length s < pos + length pat\<close> show ?thesis
      by auto
  qed
qed

lemma parse_args_loop_index:
  "parse_args_loop src index i lastPos d inQuote args = Inr (a, j) \<Longrightarrow> j = index \<or> i \<le> j"
proof (induction src index i lastPos d inQuote args rule: parse_args_loop.induct)
  case (1 src index i lastPos d inQuote args)
  from "1.prems" "1.IH" scan_fwd_ge [of i "\<lambda>c. c = CHR '')''" src] show ?case
    by (subst (asm) parse_args_loop.simps)
       (fastforce simp: Let_def split: if_splits sum.splits prod.splits)
qed

lemma parse_args_index: "parse_args src index = Inr (a, j) \<Longrightarrow> index \<le> j"
  using parse_args_loop_index [of src index "index + 1" index "(0, 0, 0)" False "[]" a j]
  by (auto simp: parse_args_def)

text \<open>The first loop, lines 395-415: the comments of the text from \<open>index\<close> on.\<close>

function extract_comments :: "string \<Rightarrow> nat \<Rightarrow> stop + CommentData list" where
  "extract_comments src index =
     (if index < length src then
        (if src ! index = CHR ''/'' \<and> at0 src (index + 1) = CHR ''/'' then
           (let endp = (case find_str src [NL] index of None \<Rightarrow> length src | Some p \<Rightarrow> p) in
            case substr src (index + 2) (size_sub (size_sub endp index) 2) of
              Inl x \<Rightarrow> Inl x
            | Inr inner \<Rightarrow>
               (case extract_comments src endp of
                  Inl x \<Rightarrow> Inl x
                | Inr rest \<Rightarrow>
                    Inr (\<lparr>cm_index = index, cm_end_index = endp, cm_comment = strip inner\<rparr> # rest)))
         else if src ! index = CHR ''/'' \<and> at0 src (index + 1) = CHR ''*'' then
           (let endp = (case find_str src ''*/'' index of None \<Rightarrow> length src | Some p \<Rightarrow> p) in
            case substr src (index + 2) (size_sub (size_sub endp index) 2) of
              Inl x \<Rightarrow> Inl x
            | Inr inner \<Rightarrow>
               (case extract_comments src (endp + 2) of
                  Inl x \<Rightarrow> Inl x
                | Inr rest \<Rightarrow>
                    Inr (\<lparr>cm_index = index, cm_end_index = endp + 2, cm_comment = strip inner\<rparr> # rest)))
         else extract_comments src (Suc index))
      else Inr [])"
  by pat_completeness auto
termination
proof (relation "measure (\<lambda>(src, index). length src - index)")
  fix src :: string and index endp :: nat and inner :: string
  assume lt: "index < length src"
    and sl: "src ! index = CHR ''/'' \<and> at0 src (index + 1) = CHR ''/''"
    and e: "endp = (case find_str src [NL] index of None \<Rightarrow> length src | Some p \<Rightarrow> p)"
  have "index < endp"
  proof (cases "find_str src [NL] index")
    case None
    with e lt show ?thesis by simp
  next
    case (Some p)
    from find_str_Some [OF Some] have "index \<le> p" "p < length src" "src ! p = NL"
      by (auto simp: take_Suc_conv_app_nth hd_drop_conv_nth take_Suc)
    with sl have "p \<noteq> index" by auto
    with \<open>index \<le> p\<close> e Some show ?thesis by simp
  qed
  with lt show "((src, endp), (src, index)) \<in> measure (\<lambda>(src, index). length src - index)"
    by simp
next
  fix src :: string and index endp :: nat and inner :: string
  assume lt: "index < length src"
    and e: "endp = (case find_str src ''*/'' index of None \<Rightarrow> length src | Some p \<Rightarrow> p)"
  have "index \<le> endp"
  proof (cases "find_str src ''*/'' index")
    case None
    with e lt show ?thesis by simp
  next
    case (Some p)
    from find_str_Some [OF Some] e Some show ?thesis by simp
  qed
  with lt show "((src, endp + 2), (src, index)) \<in> measure (\<lambda>(src, index). length src - index)"
    by simp
qed auto

declare extract_comments.simps [simp del]

lemma map_sum_Inr_iff: "(map_sum f g x = Inr y) = (\<exists>z. x = Inr z \<and> y = g z)"
  by (cases x) auto

lemma map_sum_Inl_iff: "(map_sum f g x = Inl y) = (\<exists>z. x = Inl z \<and> y = f z)"
  by (cases x) auto

text \<open>The \<^verbatim>\<open>while\<close> loop of lines 424-461 over the text \<open>cmt\<close> of one comment.\<close>

function interpret_comment ::
  "(string \<Rightarrow> DocContext \<Rightarrow> bool \<Rightarrow> string \<Rightarrow> stop + DocContext)
     \<Rightarrow> CommentData \<Rightarrow> string \<Rightarrow> string \<Rightarrow> string \<Rightarrow> nat \<Rightarrow> bool \<Rightarrow> DocContext
     \<Rightarrow> stop + DocContext" where
  "interpret_comment reenter comment src filename cmt index doc context =
     (if index < length cmt then
        (if cmt ! index = CHR ''@'' \<and> isupper (at0 cmt (index + 1)) then
           (let endp = scan_fwd (\<lambda>c. \<not> (isalnum c \<or> c = CHR ''_'')) cmt (index + 1) in
            case substr cmt (index + 1) (size_sub (size_sub endp index) 1) of
              Inl x \<Rightarrow> Inl x
            | Inr cmdName \<Rightarrow>
               (case (if at0 cmt endp = CHR ''(''
                      then map_sum id (\<lambda>(a, j). (a, Suc j)) (parse_args cmt endp)
                      else Inr ([], endp)) of
                  Inl x \<Rightarrow> Inl x
                | Inr (args, index') \<Rightarrow>
                   (case (if cmdName = ''DOC'' then Inr (True, context)
                          else if cmdName = ''END'' then Inr (False, context)
                          else if doc
                            then map_sum id (Pair doc)
                                   (process_src_command reenter cmdName args context comment src False filename)
                          else Inr (doc, context)) of
                      Inl x \<Rightarrow> Inl x
                    | Inr (doc', context') \<Rightarrow>
                        interpret_comment reenter comment src filename cmt
                          (if index' + 1 < length cmt \<and> cmt ! index' = BSL
                                \<and> cmt ! (index' + 1) = CHR ''(''
                           then Suc index' else index')
                          doc' context')))
         else interpret_comment reenter comment src filename cmt (Suc index) doc
                (if doc then process_char (cmt ! index) context else context))
      else Inr context)"
  by pat_completeness auto
termination
  apply (relation "measure (\<lambda>(reenter, comment, src, filename, cmt, index, r). length cmt - index)")
    apply simp
  subgoal for reenter comment src filename cmt index
    using scan_fwd_ge [of "index + 1" "\<lambda>c. \<not> (isalnum c \<or> c = CHR ''_'')" cmt]
    by (auto simp: map_sum_Inr_iff split: if_splits dest!: parse_args_index)
  apply simp
  done

declare interpret_comment.simps [simp del]

text \<open>The body of the \<^verbatim>\<open>for\<close> loop, lines 418-464: one comment, then lines 462-463.\<close>

definition process_comment ::
  "(string \<Rightarrow> DocContext \<Rightarrow> bool \<Rightarrow> string \<Rightarrow> stop + DocContext)
     \<Rightarrow> string \<Rightarrow> bool \<Rightarrow> string \<Rightarrow> CommentData \<Rightarrow> DocContext \<Rightarrow> stop + DocContext" where
  "process_comment reenter src realSource filename comment context =
     (case interpret_comment reenter comment src filename (cm_comment comment) 0 False context of
        Inl x \<Rightarrow> Inl x
      | Inr context' \<Rightarrow>
          Inr (if realSource then context'\<lparr>currentSection := []\<rparr> else context'))"

fun process_comments ::
  "(string \<Rightarrow> DocContext \<Rightarrow> bool \<Rightarrow> string \<Rightarrow> stop + DocContext)
     \<Rightarrow> string \<Rightarrow> bool \<Rightarrow> string \<Rightarrow> CommentData list \<Rightarrow> DocContext \<Rightarrow> stop + DocContext" where
  "process_comments reenter src realSource filename [] context = Inr context"
| "process_comments reenter src realSource filename (comment # comments) context =
     (case process_comment reenter src realSource filename comment context of
        Inl x \<Rightarrow> Inl x
      | Inr context' \<Rightarrow> process_comments reenter src realSource filename comments context')"

definition process_source_body ::
  "(string \<Rightarrow> DocContext \<Rightarrow> bool \<Rightarrow> string \<Rightarrow> stop + DocContext)
     \<Rightarrow> string \<Rightarrow> DocContext \<Rightarrow> bool \<Rightarrow> string \<Rightarrow> stop + DocContext" where
  "process_source_body reenter src context realSource filename =
     (case extract_comments src 0 of
        Inl x \<Rightarrow> Inl x
      | Inr comments \<Rightarrow> process_comments reenter src realSource filename comments context)"

text \<open>
  \<open>process_source depth\<close> is \<^verbatim>\<open>process_source\<close> followed through at most \<open>depth\<close> nested alias
  expansions: a call that needs a deeper one yields \<open>Still_expanding\<close>. This is the only
  recursion of the program that is not bounded by the length of a text, so the C++ call
  returns exactly when some \<open>depth\<close> gives a result other than \<open>Still_expanding\<close>.
\<close>

primrec process_source ::
  "nat \<Rightarrow> string \<Rightarrow> DocContext \<Rightarrow> bool \<Rightarrow> string \<Rightarrow> stop + DocContext" where
  "process_source 0 = process_source_body (\<lambda>src context realSource filename. Inl Still_expanding)"
| "process_source (Suc depth) = process_source_body (process_source depth)"


section \<open>The template interpreter (lines 467-622)\<close>

text \<open>
  \<open>simplify_md\<close> is \<^verbatim>\<open>std::regex_replace(s, std::regex("\n[ \t]*\n[ \t]*\n"), "\n\n")\<close>: the
  matches are taken from left to right and do not overlap; the search goes on after the
  end of a match. \<open>md_match s\<close> is what follows a match that starts at the head of \<open>s\<close>. A
  starred class takes every blank it can, and since the next thing wanted is a newline,
  no shorter choice matches either.
\<close>

definition md_blank :: "char \<Rightarrow> bool" where
  "md_blank c = (c = CHR '' '' \<or> c = TAB)"

definition md_newline :: "string \<Rightarrow> string option" where
  "md_newline s = (case s of [] \<Rightarrow> None | c # r \<Rightarrow> if c = NL then Some r else None)"

definition md_match :: "string \<Rightarrow> string option" where
  "md_match s =
     (case md_newline s of None \<Rightarrow> None
      | Some r1 \<Rightarrow>
         (case md_newline (dropWhile md_blank r1) of None \<Rightarrow> None
          | Some r2 \<Rightarrow> md_newline (dropWhile md_blank r2)))"

lemma md_newline_length: "md_newline s = Some r \<Longrightarrow> length r < length s"
  by (auto simp: md_newline_def split: list.splits if_splits)

lemma md_match_length:
  assumes "md_match s = Some r"
  shows "length r < length s"
proof -
  from assms obtain r1 r2 where 1: "md_newline s = Some r1"
    and 2: "md_newline (dropWhile md_blank r1) = Some r2"
    and 3: "md_newline (dropWhile md_blank r2) = Some r"
    by (auto simp: md_match_def split: option.splits)
  have "length r < length (dropWhile md_blank r2)"
    using 3 by (rule md_newline_length)
  also have "\<dots> \<le> length r2" by (rule length_dropWhile_le)
  also have "\<dots> < length (dropWhile md_blank r1)"
    using 2 by (rule md_newline_length)
  also have "\<dots> \<le> length r1" by (rule length_dropWhile_le)
  also have "\<dots> < length s"
    using 1 by (rule md_newline_length)
  finally show ?thesis .
qed

function simplify_md :: "string \<Rightarrow> string" where
  "simplify_md [] = []"
| "simplify_md (c # r) =
     (case md_match (c # r) of
        Some rest \<Rightarrow> [NL, NL] @ simplify_md rest
      | None \<Rightarrow> c # simplify_md r)"
  by pat_completeness auto
termination
  by (relation "measure length") (auto dest: md_match_length)

text \<open>
  What the program reaches outside itself: \<^verbatim>\<open>glob::rglob\<close> together with the reading of each
  file it names (path and content, in the order returned), and, for \<^verbatim>\<open>NEW_COMMAND\<close>, the
  compiler run by \<^verbatim>\<open>system\<close>: from the command's name, the generated C++ text and what was
  at \<^verbatim>\<open>commands/<name>.so\<close> before, what is there afterwards.
\<close>

text \<open>A failure of the file system (a directory that cannot be created, a file that cannot
  be written or read) is not part of the model.\<close>

record externals =
  rglob :: "string list \<Rightarrow> (string \<times> string) list"
  build :: "string \<Rightarrow> string \<Rightarrow> module \<Rightarrow> module"

fun process_sources :: "nat \<Rightarrow> (string \<times> string) list \<Rightarrow> DocContext \<Rightarrow> stop + DocContext" where
  "process_sources depth [] context = Inr context"
| "process_sources depth ((source, src) # sources) context =
     (case process_source depth src context True source of
        Inl x \<Rightarrow> Inl x
      | Inr context' \<Rightarrow> process_sources depth sources context')"

definition new_command_text :: "string list \<Rightarrow> string" where
  "new_command_text args =
     (let includes = ''#include <string>'' @ [NL] @ ''#include<vector>'' @ [NL]
            @ (if length args = 3 then args ! 1 else []);
          code = (if length args = 3 then args ! 2 else args ! 1)
      in includes @ [NL] @ ''std::string '' @ args ! 0
           @ ''(const std::string &code, const std::vector<std::string> &args) '' @ [NL] @ code)"

definition md_command_parts :: "string \<Rightarrow> stop + (string \<times> string list)" where
  "md_command_parts command0 =
     (let command = strip command0 in
      case find_str command ''('' 0 of
        Some pos \<Rightarrow>
          (case substr command 0 pos of
             Inl x \<Rightarrow> Inl x
           | Inr name \<Rightarrow> map_sum id (\<lambda>(args, i). (strip name, args)) (parse_args command pos))
      | None \<Rightarrow> Inr (strip command, []))"

definition process_md_command :: "nat \<Rightarrow> externals \<Rightarrow> string \<Rightarrow> DocContext \<Rightarrow> stop + DocContext" where
  "process_md_command depth ext command0 context =
     (case md_command_parts command0 of
        Inl x \<Rightarrow> Inl x
      | Inr (cmdName, args) \<Rightarrow>
         if cmdName = ''NEW_COMMAND'' then
           (if length args \<noteq> 2 \<and> length args \<noteq> 3
            then Inr (report (''Error: NEW_COMMAND requires 2 arguments'' @ [NL]) context)
            else Inr (context\<lparr>modules := (modules context)
                        (args ! 0 := build ext (args ! 0) (new_command_text args)
                                       (modules context (args ! 0)))\<rparr>))
         else if cmdName = ''PROCESS_SOURCES'' then
           (let sources = rglob ext args in
            case process_sources depth sources context of
              Inl x \<Rightarrow> Inl x
            | Inr context' \<Rightarrow>
                Inr (if sources = []
                     then fold (\<lambda>a. report (a @ [NL])) args
                            (report (''Error: No sources found'' @ [NL]) context')
                     else context'))
         else if cmdName = ''INSERT_SECTION'' then
           (if length args \<noteq> 1
            then Inr (report (''Error: INSERT_SECTION requires 1 argument'' @ [NL]) context)
            else
              (case sections context (args ! 0) of
                 None \<Rightarrow> Inr (report (''Error: Section '' @ args ! 0 @ '' not found'' @ [NL]) context)
               | Some buffer \<Rightarrow>
                   Inr (context\<lparr>output := output context @ simplify_md buffer @ [NL, NL]\<rparr>)))
         else if cmdName = ''NEW_ALIAS'' then
           (if length args \<noteq> 2
            then Inr (report (''Error: NEW_ALIAS requires 2 arguments'' @ [NL]) context)
            else
              (let s = strip (args ! 1);
                   s' = (if at0 s 0 = CHR ''('' \<or> at0 s 0 = CHR ''{'' \<or> at0 s 0 = CHR ''[''
                            \<or> at0 s 0 = DQ
                         then take (size_sub (length s) 2) (drop 1 s) else s)
               in Inr (context\<lparr>aliases := (aliases context)(args ! 0 \<mapsto> s')\<rparr>)))
         else Inr (report (''Error: Unknown command '' @ cmdName @ [NL]) context))"






text \<open>Lines 584-586: the context \<^verbatim>\<open>main\<close> starts from.\<close>

definition initial_context :: "(string \<Rightarrow> module) \<Rightarrow> string \<Rightarrow> DocContext" where
  "initial_context modules0 docgenSrc =
     \<lparr>sections = Map.empty, mainSection = [], modules = modules0, inputDocgen = docgenSrc,
      currentSection = [], output = [], aliases = Map.empty, cerr = []\<rparr>"

text \<open>A run that starts with an empty \<^verbatim>\<open>docs/commands\<close> and an empty template.\<close>

definition no_modules :: "string \<Rightarrow> module" where
  "no_modules name = Absent"

definition empty_context :: DocContext where
  "empty_context = initial_context no_modules []"



text \<open>Trimming on the right, to state what \<open>strip\<close> computes.\<close>

definition rtrim :: "string \<Rightarrow> string" where
  "rtrim s = rev (dropWhile isspace (rev s))"

section \<open>Notions and inputs used to state the properties\<close>

text \<open>A declaration of an overloaded operator after a comment that asks for its name.\<close>

definition operator_src :: string where
  "operator_src = ''/* @DOC @FUNC_NAME @END */ bool operator==(int a);''"

definition operator_comment :: CommentData where
  "operator_comment = \<lparr>cm_index = 0, cm_end_index = 26, cm_comment = ''@DOC @FUNC_NAME @END''\<rparr>"

text \<open>A file of two comments; the first one selects the section \<^verbatim>\<open>x\<close>.\<close>

definition two_comments_src :: string where
  "two_comments_src = ''/* @DOC @SECTION(x) a @END */ /* @DOC b @END */''"

definition section_text :: "string \<Rightarrow> DocContext \<Rightarrow> string option" where
  "section_text name context = sections context name"

text \<open>A declaration with three arguments after a comment that asks for the last one.\<close>

definition three_args_src :: string where
  "three_args_src = ''/* @DOC @FUNC_ARG(-1) @END */ int f(int a, char b, long c);''"

definition three_args_comment :: CommentData where
  "three_args_comment = \<lparr>cm_index = 0, cm_end_index = 29, cm_comment = ''@DOC @FUNC_ARG(-1) @END''\<rparr>"

text \<open>The same declaration after a comment that asks for an argument whose index does not fit
  a 32-bit \<^verbatim>\<open>int\<close>.\<close>

definition large_index_src :: string where
  "large_index_src = ''/* @DOC @FUNC_ARG(2147483648) @END */ int f(int a, char b, long c);''"

text \<open>An alias that expands to an invocation of itself, and a file that invokes it.\<close>

definition cycle_context :: DocContext where
  "cycle_context = empty_context\<lparr>aliases := [''X'' \<mapsto> ''@X'']\<rparr>"

definition cycle_src :: string where
  "cycle_src = ''/* @DOC @X @END */'' @ [NL]"

definition cycle_pseudo :: string where
  "cycle_pseudo = ''/* @DOC'' @ [NL] @ ''@X'' @ [NL] @ ''@END'' @ [NL] @ ''*/'' @ [NL]"

definition cycle_comment :: CommentData where
  "cycle_comment = \<lparr>cm_index = 0, cm_end_index = 18, cm_comment = ''@DOC @X @END''\<rparr>"

definition cycle_pseudo_comment :: CommentData where
  "cycle_pseudo_comment =
     \<lparr>cm_index = 0, cm_end_index = 18, cm_comment = ''@DOC'' @ [NL] @ ''@X'' @ [NL] @ ''@END''\<rparr>"







text \<open>
  The words of the specification for the splitter: the lexical state after a text is
  whether a double-quoted literal is open (a quote toggles it) and, counted outside
  literals only, the depth in each of the three bracket families.
\<close>

definition lex_step :: "bool \<times> int \<times> int \<times> int \<Rightarrow> char \<Rightarrow> bool \<times> int \<times> int \<times> int" where
  "lex_step st c =
     (case st of (quoted, round, square, curly) \<Rightarrow>
        if c = DQ then (\<not> quoted, round, square, curly)
        else if quoted then st
        else if c = CHR ''('' then (quoted, round + 1, square, curly)
        else if c = CHR '')'' then (quoted, round - 1, square, curly)
        else if c = CHR ''['' then (quoted, round, square + 1, curly)
        else if c = CHR '']'' then (quoted, round, square - 1, curly)
        else if c = CHR ''{'' then (quoted, round, square, curly + 1)
        else if c = CHR ''}'' then (quoted, round, square, curly - 1)
        else st)"

text \<open>The state after the characters at the positions \<open>index + 1, \<dots>, k\<close> of \<open>src\<close>.\<close>

definition state_after :: "string \<Rightarrow> nat \<Rightarrow> nat \<Rightarrow> bool \<times> int \<times> int \<times> int" where
  "state_after src index k = foldl lex_step (False, 0, 0, 0) (take (k - index) (drop (Suc index) src))"

text \<open>A comma that splits: outside a literal, at depth zero in the three families.\<close>

definition splits_at :: "string \<Rightarrow> nat \<Rightarrow> nat \<Rightarrow> bool" where
  "splits_at src index k = (src ! k = CHR '','' \<and> state_after src index k = (False, 0, 0, 0))"

text \<open>The round-bracket depth is negative after position \<open>k\<close>.\<close>

definition closes_at :: "string \<Rightarrow> nat \<Rightarrow> nat \<Rightarrow> bool" where
  "closes_at src index k = (fst (snd (state_after src index k)) < 0)"

text \<open>The position of the last splitting comma before \<open>n\<close>; the opening delimiter when there
  is none.\<close>

definition last_split :: "string \<Rightarrow> nat \<Rightarrow> nat \<Rightarrow> nat" where
  "last_split src index n = last (index # filter (splits_at src index) [Suc index ..< n])"

text \<open>The buffer of the example in the specification, and two buffers that are not closed.\<close>

definition splitter_example :: string where
  "splitter_example = ''(a, (b,c), '' @ [DQ] @ ''d,e'' @ [DQ] @ '')''"

definition unclosed_example :: string where
  "unclosed_example = ''(a, '' @ [DQ] @ ''b,c''"

definition trimmed :: "string \<Rightarrow> bool" where
  "trimmed a = (a = [] \<or> (\<not> isspace (hd a) \<and> \<not> isspace (last a)))"

text \<open>The alias of the specification's example, a file that invokes it and the file with the
  replacement text written in its place.\<close>

definition hello_context :: DocContext where
  "hello_context = empty_context\<lparr>aliases := [''X'' \<mapsto> ''@DOC hello @END'']\<rparr>"

definition hello_alias_src :: string where
  "hello_alias_src = ''/* @DOC @X @END */'' @ [NL]"

definition hello_inlined_src :: string where
  "hello_inlined_src = ''/* @DOC @DOC hello @END @END */'' @ [NL]"

definition hello_alias_comment :: CommentData where
  "hello_alias_comment = \<lparr>cm_index = 0, cm_end_index = 18, cm_comment = ''@DOC @X @END''\<rparr>"

text \<open>The block line 354 builds around the replacement text of that alias.\<close>

definition hello_block :: string where
  "hello_block = ''/* @DOC'' @ [NL] @ ''@DOC hello @END'' @ [NL] @ ''@END'' @ [NL] @ ''*/'' @ [NL]"

definition hello_block_comment :: CommentData where
  "hello_block_comment = \<lparr>cm_index = 0, cm_end_index = 31,
     cm_comment = ''@DOC'' @ [NL] @ ''@DOC hello @END'' @ [NL] @ ''@END''\<rparr>"

text \<open>No comment starts at a position from \<open>n\<close> on.\<close>

definition opener_free :: "string \<Rightarrow> nat \<Rightarrow> bool" where
  "opener_free s n = (\<forall>i. n \<le> i \<and> i < length s \<longrightarrow>
      \<not> (s ! i = CHR ''/'' \<and> (at0 s (i + 1) = CHR ''/'' \<or> at0 s (i + 1) = CHR ''*'')))"

text \<open>No two adjacent characters of the text open a comment.\<close>

definition pair_free :: "string \<Rightarrow> bool" where
  "pair_free s = (\<forall>i. Suc i < length s \<longrightarrow>
      \<not> (s ! i = CHR ''/'' \<and> (s ! Suc i = CHR ''/'' \<or> s ! Suc i = CHR ''*'')))"




section \<open>Properties\<close>

subsection \<open>The scanning loops and strip\<close>

lemma scan_fwd_takeWhile:
  "e \<le> length s \<Longrightarrow> scan_fwd stp s e = e + length (takeWhile (\<lambda>c. \<not> stp c) (drop e s))"
proof (induction stp s e rule: scan_fwd.induct)
  case (1 stp s e)
  show ?case
  proof (cases "e < length s")
    case True
    then have d: "drop e s = s ! e # drop (Suc e) s"
      by (simp add: Cons_nth_drop_Suc)
    show ?thesis
    proof (cases "stp (s ! e)")
      case True
      with \<open>e < length s\<close> d show ?thesis
        by (subst scan_fwd.simps) simp
    next
      case False
      with \<open>e < length s\<close> d "1.IH" show ?thesis
        by (subst scan_fwd.simps) simp
    qed
  next
    case False
    with "1.prems" show ?thesis
      by (subst scan_fwd.simps) simp
  qed
qed

lemma scan_fwd_beyond: "length s \<le> e \<Longrightarrow> scan_fwd stp s e = e"
  by (subst scan_fwd.simps) simp

lemma strip_end_takeWhile:
  "e \<le> length s \<Longrightarrow> strip_end s e = e - length (takeWhile isspace (rev (take e s)))"
proof (induction e)
  case 0
  then show ?case by simp
next
  case (Suc e)
  then have "take (Suc e) s = take e s @ [s ! e]"
    by (simp add: take_Suc_conv_app_nth)
  with Suc show ?case by simp
qed

lemma takeWhile_shorter: "\<exists>c\<in>set xs. \<not> P c \<Longrightarrow> length (takeWhile P xs) < length xs"
  by (induction xs) auto

lemma strip_eq: "strip s = rtrim (dropWhile isspace s)"
proof (cases "\<forall>c\<in>set s. isspace c")
  case True
  then have "length (takeWhile isspace s) = length s"
    by (induction s) auto
  then have "scan_fwd (\<lambda>c. \<not> isspace c) s 0 = length s"
    by (simp add: scan_fwd_takeWhile)
  moreover from True have "dropWhile isspace s = []"
    by simp
  ultimately show ?thesis
    by (auto simp: strip_def rtrim_def dest: set_dropWhileD)
next
  case False
  define a where "a = takeWhile isspace s"
  define m where "m = dropWhile isspace s"
  have s: "s = a @ m" by (simp add: a_def m_def)
  from False have m_ne: "m \<noteq> []" by (auto simp: m_def)
  then have hd_m: "\<not> isspace (hd m)"
    unfolding m_def using hd_dropWhile by blast
  have ex: "\<exists>c\<in>set (rev m). \<not> isspace c"
    using m_ne hd_m by (cases m) auto
  have tw: "takeWhile isspace (rev s) = takeWhile isspace (rev m)"
    using ex by (auto simp: s takeWhile_append)
  have len: "length (takeWhile isspace (rev m)) < length m"
    using ex takeWhile_shorter [of "rev m" isspace] by simp
  have start: "scan_fwd (\<lambda>c. \<not> isspace c) s 0 = length a"
    by (simp add: scan_fwd_takeWhile a_def)
  have endp: "strip_end s (length s) = length s - length (takeWhile isspace (rev m))"
    by (simp add: strip_end_takeWhile tw)
  have "strip s = take (size_sub (length s - length (takeWhile isspace (rev m))) (length a))
                    (drop (length a) s)"
    unfolding strip_def Let_def start endp ..
  moreover have "length s = length a + length m" "drop (length a) s = m"
    by (simp_all add: s)
  ultimately have "strip s = take (length m - length (takeWhile isspace (rev m))) m"
    using len by (simp add: size_sub_def)
  also have "\<dots> = rev (drop (length (takeWhile isspace (rev m))) (rev m))"
    by (simp add: rev_drop)
  also have "\<dots> = rev (dropWhile isspace (rev m))"
    by (simp add: dropWhile_eq_drop)
  finally show ?thesis by (simp add: rtrim_def m_def)
qed

lemma set_strip: "set (strip s) \<subseteq> set s"
proof
  fix x assume "x \<in> set (strip s)"
  then have "x \<in> set (dropWhile isspace (rev (dropWhile isspace s)))"
    by (simp add: strip_eq rtrim_def)
  then have "x \<in> set (rev (dropWhile isspace s))"
    by (rule set_dropWhileD)
  then have "x \<in> set (dropWhile isspace s)" by simp
  then show "x \<in> set s" by (rule set_dropWhileD)
qed

lemma strip_word_append:
  assumes "w \<noteq> []" "\<forall>c\<in>set w. \<not> isspace c"
  shows "strip (w @ t) = w @ rtrim t"
proof -
  from assms have 1: "dropWhile isspace (w @ t) = w @ t"
    by (cases w) auto
  from assms have 2: "dropWhile isspace (rev w) = rev w"
    by (cases w rule: rev_cases) auto
  from assms have "dropWhile isspace (rev t @ rev w) = dropWhile isspace (rev t) @ rev w"
    using 2 by (auto simp: dropWhile_append dest: set_dropWhileD)
  with 1 show ?thesis
    by (simp add: strip_eq rtrim_def)
qed

lemma strip_word: "\<forall>c\<in>set w. \<not> isspace c \<Longrightarrow> strip w = w"
  using strip_word_append [of w "[]"] by (cases "w = []") (auto simp: rtrim_def strip_eq)

lemma rd_Inr: "rd s i = Inr c \<Longrightarrow> i \<le> length s \<and> c = at0 s i"
  by (auto simp: rd_def at0_def split: if_splits)

lemma scan_back_props:
  "scan_back p s e = Inr st \<Longrightarrow>
     st \<le> e \<and> (\<forall>i. st \<le> i \<and> i < e \<longrightarrow> i \<le> length s \<and> p (at0 s i))
       \<and> (st = 0 \<or> (st - 1 \<le> length s \<and> \<not> p (at0 s (st - 1))))"
proof (induction e)
  case 0
  then show ?case by simp
next
  case (Suc e)
  show ?case
  proof (cases "rd s e")
    case (Inl x)
    with Suc.prems show ?thesis by simp
  next
    case (Inr c)
    note c = rd_Inr [OF Inr]
    show ?thesis
    proof (cases "p c")
      case True
      with Suc.prems Inr have "scan_back p s e = Inr st" by simp
      from Suc.IH [OF this] True c show ?thesis
        by (auto simp: less_Suc_eq)
    next
      case False
      with Suc.prems Inr have "st = Suc e" by simp
      with False c show ?thesis by auto
    qed
  qed
qed

lemma scan_back_total: "e \<le> Suc (length s) \<Longrightarrow> \<exists>st. scan_back p s e = Inr st"
  by (induction e) (auto simp: rd_def)

lemma scan_fwd_not_stop: "e \<le> i \<Longrightarrow> i < scan_fwd stp s e \<Longrightarrow> i < length s \<and> \<not> stp (s ! i)"
proof (induction stp s e rule: scan_fwd.induct)
  case (1 stp s e)
  show ?case
  proof (cases "e < length s \<and> \<not> stp (s ! e)")
    case True
    then have eq: "scan_fwd stp s e = scan_fwd stp s (Suc e)"
      by (subst scan_fwd.simps) simp
    show ?thesis
    proof (cases "i = e")
      case True
      with \<open>e < length s \<and> \<not> stp (s ! e)\<close> show ?thesis by simp
    next
      case False
      with "1.prems" eq "1.IH" [OF True] show ?thesis by simp
    qed
  next
    case False
    then have "scan_fwd stp s e = e"
      by (subst scan_fwd.simps) auto
    with "1.prems" show ?thesis by simp
  qed
qed

lemma ident_not_space: "isalnum c \<or> c = CHR ''_'' \<Longrightarrow> \<not> isspace c"
  by (auto simp: isalnum_def isdigit_def isupper_def islower_def isspace_def)

lemma NUL_not_ident: "\<not> (isalnum NUL \<or> NUL = CHR ''_'')"
  by (simp add: isalnum_def isdigit_def isupper_def islower_def)

subsection \<open>FUNC\_NAME\<close>

lemma strip_FUNC_NAME: "strip ''FUNC_NAME'' = ''FUNC_NAME''"
  by code_simp

lemma process_src_command_FUNC_NAME:
  "process_src_command reenter ''FUNC_NAME'' args context comment src simplify filename
     = emit simplify (func_name src (cm_end_index comment)) context"
  by (subst process_src_command.simps) (simp add: strip_FUNC_NAME at0_def)

lemma func_name_span_props:
  assumes "func_name_span src e = Inr (start, endp)"
  shows "start \<le> endp" "endp \<le> length src"
    "\<forall>i. start \<le> i \<and> i < endp \<longrightarrow> isalnum (src ! i) \<or> src ! i = CHR ''_''"
    "\<forall>i. endp \<le> i \<and> i < scan_fwd (\<lambda>c. c = CHR ''('') src (e + 1) \<and> i < length src
         \<longrightarrow> \<not> (isalnum (src ! i) \<or> src ! i = CHR ''_'')"
proof -
  let ?p = "scan_fwd (\<lambda>c. c = CHR ''('') src (e + 1)"
  from assms have 1: "scan_back (\<lambda>c. \<not> isalnum c \<and> c \<noteq> CHR ''_'') src ?p = Inr endp"
    and 2: "scan_back (\<lambda>c. isalnum c \<or> c = CHR ''_'') src endp = Inr start"
    by (auto simp: func_name_span_def map_sum_Inr_iff split: sum.splits)
  note b1 = scan_back_props [OF 1] and b2 = scan_back_props [OF 2]
  from b2 show "start \<le> endp" by simp
  show le: "endp \<le> length src"
  proof (cases "endp = 0")
    case False
    with b1 have "isalnum (at0 src (endp - 1)) \<or> at0 src (endp - 1) = CHR ''_''"
      by auto
    with NUL_not_ident have "endp - 1 < length src"
      by (auto simp: at0_def split: if_splits)
    then show ?thesis by simp
  qed simp
  from b2 le show "\<forall>i. start \<le> i \<and> i < endp \<longrightarrow> isalnum (src ! i) \<or> src ! i = CHR ''_''"
    by (auto simp: at0_def)
  from b1 show "\<forall>i. endp \<le> i \<and> i < ?p \<and> i < length src
         \<longrightarrow> \<not> (isalnum (src ! i) \<or> src ! i = CHR ''_'')"
    by (auto simp: at0_def)
qed

lemma take_drop_ident:
  assumes "endp \<le> length src"
    and "\<forall>i. start \<le> i \<and> i < endp \<longrightarrow> P (src ! i)"
  shows "\<forall>c\<in>set (take (endp - start) (drop start src)). P c"
proof
  fix c assume "c \<in> set (take (endp - start) (drop start src))"
  then obtain j where "j < length (take (endp - start) (drop start src))"
    and "c = take (endp - start) (drop start src) ! j"
    by (auto simp: in_set_conv_nth)
  with assms show "P c" by auto
qed

lemma scan_fwd_stops: "scan_fwd stp s e < length s \<Longrightarrow> stp (s ! scan_fwd stp s e)"
proof (induction stp s e rule: scan_fwd.induct)
  case (1 stp s e)
  show ?case
  proof (cases "e < length s \<and> \<not> stp (s ! e)")
    case True
    then have eq: "scan_fwd stp s e = scan_fwd stp s (Suc e)"
      by (subst scan_fwd.simps) simp
    with "1.prems" "1.IH" [OF True] show ?thesis by simp
  next
    case False
    then have eq: "scan_fwd stp s e = e"
      by (subst scan_fwd.simps) auto
    with "1.prems" False show ?thesis by simp
  qed
qed

lemma func_name_span_total:
  assumes "e \<le> length src"
  shows "\<exists>start endp. func_name_span src e = Inr (start, endp)"
proof -
  let ?p = "scan_fwd (\<lambda>c. c = CHR ''('') src (e + 1)"
  from scan_fwd_le [of "\<lambda>c. c = CHR ''(''" src "e + 1"] assms have p: "?p \<le> Suc (length src)"
    by (simp add: max_def split: if_splits)
  from scan_back_total [OF p] obtain endp where
    1: "scan_back (\<lambda>c. \<not> isalnum c \<and> c \<noteq> CHR ''_'') src ?p = Inr endp"
    by blast
  from scan_back_props [OF 1] p have "endp \<le> Suc (length src)"
    by simp
  from scan_back_total [OF this] obtain start where
    "scan_back (\<lambda>c. isalnum c \<or> c = CHR ''_'') src endp = Inr start"
    by blast
  with 1 show ?thesis
    by (simp add: func_name_span_def)
qed

lemma func_name_span_maximal:
  assumes "func_name_span src e = Inr (start, endp)"
  shows "endp \<le> scan_fwd (\<lambda>c. c = CHR ''('') src (e + 1)"
    "start = 0 \<or> \<not> (isalnum (src ! (start - 1)) \<or> src ! (start - 1) = CHR ''_'')"
    "endp = 0 \<or> isalnum (src ! (endp - 1)) \<or> src ! (endp - 1) = CHR ''_''"
    "\<forall>i. endp \<le> i \<and> i < scan_fwd (\<lambda>c. c = CHR ''('') src (e + 1)
         \<longrightarrow> \<not> (isalnum (at0 src i) \<or> at0 src i = CHR ''_'')"
proof -
  let ?p = "scan_fwd (\<lambda>c. c = CHR ''('') src (e + 1)"
  from assms have 1: "scan_back (\<lambda>c. \<not> isalnum c \<and> c \<noteq> CHR ''_'') src ?p = Inr endp"
    and 2: "scan_back (\<lambda>c. isalnum c \<or> c = CHR ''_'') src endp = Inr start"
    by (auto simp: func_name_span_def map_sum_Inr_iff split: sum.splits)
  note b1 = scan_back_props [OF 1] and b2 = scan_back_props [OF 2]
  note p = func_name_span_props [OF assms]
  from b1 show "endp \<le> ?p" by simp
  show "start = 0 \<or> \<not> (isalnum (src ! (start - 1)) \<or> src ! (start - 1) = CHR ''_'')"
  proof (cases "start = 0")
    case False
    with p(1,2) have "start - 1 < length src" by simp
    with b2 False show ?thesis by (auto simp: at0_def)
  qed simp
  show "endp = 0 \<or> isalnum (src ! (endp - 1)) \<or> src ! (endp - 1) = CHR ''_''"
  proof (cases "endp = 0")
    case False
    with p(2) have "endp - 1 < length src" by simp
    with b1 False show ?thesis by (auto simp: at0_def)
  qed simp
  from b1 show "\<forall>i. endp \<le> i \<and> i < ?p \<longrightarrow> \<not> (isalnum (at0 src i) \<or> at0 src i = CHR ''_'')"
    by auto
qed

lemma func_name_text:
  assumes "func_name_span src e = Inr (start, endp)"
  shows "func_name src e = Inr (if take (endp - start) (drop start src) = ''operator''
          then ''operator'' @ rtrim (takeWhile (\<lambda>c. c \<noteq> CHR ''('') (drop endp src))
          else take (endp - start) (drop start src))"
proof -
  let ?a = "take (endp - start) (drop start src)"
  note p = func_name_span_props [OF assms]
  have nosp: "\<forall>c\<in>set ?a. \<not> isspace c"
    using take_drop_ident [OF p(2), of start "\<lambda>c. \<not> isspace c"] p(3) ident_not_space
    by blast
  then have strip_a: "strip ?a = ?a" by (rule strip_word)
  have sub: "substr src start (size_sub endp start) = Inr ?a"
    using p(1,2) by (simp add: substr_def size_sub_def)
  show ?thesis
  proof (cases "?a = ''operator''")
    case False
    with sub strip_a assms show ?thesis
      by (simp add: func_name_def)
  next
    case True
    let ?t = "takeWhile (\<lambda>c. c \<noteq> CHR ''('') (drop endp src)"
    let ?q = "scan_fwd (\<lambda>c. c = CHR ''('') src endp"
    have q: "?q = endp + length ?t"
      using p(2) by (simp add: scan_fwd_takeWhile)
    have "take (?q - start) (drop start src) = ?a @ take (length ?t) (drop endp src)"
      using p(1) q take_add [of "endp - start" "length ?t" "drop start src"]
      by (simp add: add.commute)
    also have "take (length ?t) (drop endp src) = ?t"
      by (simp add: takeWhile_eq_take [symmetric])
    finally have tk: "take (?q - start) (drop start src) = ''operator'' @ ?t"
      using True by simp
    have "substr src start (size_sub ?q start) = Inr (''operator'' @ ?t)"
      using p(1,2) q tk by (simp add: substr_def size_sub_def)
    moreover have "strip (''operator'' @ ?t) = ''operator'' @ rtrim ?t"
      by (rule strip_word_append) (simp_all add: isspace_def)
    ultimately show ?thesis
      using True sub strip_a assms by (simp add: func_name_def Let_def)
  qed
qed

text \<open>
  C8 (as the code has it). For a comment that ends inside the source text, \<^verbatim>\<open>FUNC_NAME\<close>
  goes to the next opening round bracket after the comment's end (position \<open>p\<close>: no
  bracket between, and a bracket at \<open>p\<close> unless the text ends first), walks back over the
  characters that are not identifier characters and then over the identifier characters.
  The span \<open>[start, endp)\<close> it finds is the whole identifier that precedes the bracket:
  identifier characters only, no identifier character just before \<open>start\<close>, one just
  before \<open>endp\<close> (unless \<open>endp\<close> is 0, when there is none before the bracket at all), and none
  between \<open>endp\<close> and the bracket. The command appends that identifier, except that for the
  identifier \<^verbatim>\<open>operator\<close> it appends \<^verbatim>\<open>operator\<close> followed by the source text from the end of
  the identifier up to, and not including, the next opening round bracket, trimmed on
  the right.
\<close>

theorem func_name_capture:
  assumes "cm_end_index comment \<le> length src"
  shows "\<exists>start endp.
      func_name_span src (cm_end_index comment) = Inr (start, endp)
    \<and> (\<forall>i. cm_end_index comment + 1 \<le> i
             \<and> i < scan_fwd (\<lambda>c. c = CHR ''('') src (cm_end_index comment + 1)
           \<longrightarrow> src ! i \<noteq> CHR ''('')
    \<and> (scan_fwd (\<lambda>c. c = CHR ''('') src (cm_end_index comment + 1) < length src
         \<longrightarrow> src ! scan_fwd (\<lambda>c. c = CHR ''('') src (cm_end_index comment + 1) = CHR ''('')
    \<and> start \<le> endp \<and> endp \<le> length src
    \<and> endp \<le> scan_fwd (\<lambda>c. c = CHR ''('') src (cm_end_index comment + 1)
    \<and> (\<forall>i. start \<le> i \<and> i < endp \<longrightarrow> isalnum (src ! i) \<or> src ! i = CHR ''_'')
    \<and> (start = 0 \<or> \<not> (isalnum (src ! (start - 1)) \<or> src ! (start - 1) = CHR ''_''))
    \<and> (endp = 0 \<or> isalnum (src ! (endp - 1)) \<or> src ! (endp - 1) = CHR ''_'')
    \<and> (\<forall>i. endp \<le> i \<and> i < scan_fwd (\<lambda>c. c = CHR ''('') src (cm_end_index comment + 1)
           \<longrightarrow> \<not> (isalnum (at0 src i) \<or> at0 src i = CHR ''_''))
    \<and> process_src_command reenter ''FUNC_NAME'' args ctx comment src simplify filename
        = Inr (process_str simplify
                 (if take (endp - start) (drop start src) = ''operator''
                  then ''operator'' @ rtrim (takeWhile (\<lambda>c. c \<noteq> CHR ''('') (drop endp src))
                  else take (endp - start) (drop start src))
                 ctx)"
proof -
  let ?e = "cm_end_index comment"
  let ?p = "scan_fwd (\<lambda>c. c = CHR ''('') src (?e + 1)"
  from func_name_span_total [OF assms] obtain start endp where
    span: "func_name_span src ?e = Inr (start, endp)"
    by blast
  note p = func_name_span_props [OF span] and m = func_name_span_maximal [OF span]
  have f1: "\<forall>i. ?e + 1 \<le> i \<and> i < ?p \<longrightarrow> src ! i \<noteq> CHR ''(''"
    using scan_fwd_not_stop [of "?e + 1" _ "\<lambda>c. c = CHR ''(''" src] by blast
  have f2: "?p < length src \<longrightarrow> src ! ?p = CHR ''(''"
    using scan_fwd_stops [of "\<lambda>c. c = CHR ''(''" src "?e + 1"] by blast
  have run: "process_src_command reenter ''FUNC_NAME'' args ctx comment src simplify filename
        = Inr (process_str simplify
                 (if take (endp - start) (drop start src) = ''operator''
                  then ''operator'' @ rtrim (takeWhile (\<lambda>c. c \<noteq> CHR ''('') (drop endp src))
                  else take (endp - start) (drop start src))
                 ctx)"
    by (simp add: process_src_command_FUNC_NAME emit_def func_name_text [OF span])
  show ?thesis
    using span f1 f2 p(1,2,3) m run
    by (intro exI [of _ start] exI [of _ endp] conjI)
qed

lemma operator_span: "func_name_span operator_src 26 = Inr (32, 40)"
  by code_simp

theorem func_name_capture_witness:
  "func_name_span operator_src (cm_end_index operator_comment) = Inr (32, 40)
   \<and> process_src_command (process_source 0) ''FUNC_NAME'' [] empty_context operator_comment
        operator_src False ''a.cpp'' = Inr (process_string ''operator=='' empty_context)"
proof -
  have e: "cm_end_index operator_comment = 26"
    by (simp add: operator_comment_def)
  have 0: "cm_end_index operator_comment \<le> length operator_src"
    by (simp add: operator_comment_def operator_src_def)
  have 1: "func_name_span operator_src (cm_end_index operator_comment) = Inr (32, 40)"
    by (simp add: e operator_span)
  have 2: "take (40 - 32) (drop 32 operator_src) = ''operator''"
    by (simp add: operator_src_def)
  have 3: "rtrim (takeWhile (\<lambda>c. c \<noteq> CHR ''('') (drop 40 operator_src)) = ''==''"
    by (simp add: operator_src_def rtrim_def isspace_def)
  from func_name_capture [OF 0, of "process_source 0" "[]" empty_context False "''a.cpp''"]
  obtain start endp where
    s: "func_name_span operator_src (cm_end_index operator_comment) = Inr (start, endp)"
    and r: "process_src_command (process_source 0) ''FUNC_NAME'' [] empty_context operator_comment
        operator_src False ''a.cpp''
      = Inr (process_str False
               (if take (endp - start) (drop start operator_src) = ''operator''
                then ''operator'' @ rtrim (takeWhile (\<lambda>c. c \<noteq> CHR ''('') (drop endp operator_src))
                else take (endp - start) (drop start operator_src))
               empty_context)"
    by blast
  from s 1 have "start = 32" "endp = 40" by simp_all
  with r 1 2 3 show ?thesis
    by (simp add: process_str_def)
qed

text \<open>
  C8 as stated fails: for \<^verbatim>\<open>bool operator==(int a);\<close> the text appended is \<^verbatim>\<open>operator==\<close>,
  without the opening round bracket.
\<close>

theorem func_name_operator_counterexample:
  "map_sum id mainSection (process_source 0 operator_src empty_context True ''a.cpp'')
     = Inr '' operator== ''"
  by code_simp

subsection \<open>Inserting a section\<close>

lemma insert_section_parts: "md_command_parts ''INSERT_SECTION(x)'' = Inr (''INSERT_SECTION'', [''x''])"
  by code_simp

lemma simplify_md_four_newlines:
  "simplify_md (''a'' @ [NL, NL, NL, NL] @ ''b'') = ''a'' @ [NL, NL, NL] @ ''b''"
  by code_simp

text \<open>
  C7. A section \<^verbatim>\<open>x\<close> whose buffer is \<^verbatim>\<open>a\<close>, three blank lines, \<^verbatim>\<open>b\<close>: \<^verbatim>\<open>INSERT_SECTION(x)\<close> appends
  \<^verbatim>\<open>a\<close>, two blank lines, \<^verbatim>\<open>b\<close> and the trailing blank line. The run of three blank lines is
  cut to two, not to one: the pattern is matched once on the first three newlines and the
  fourth is left where it is.
\<close>

theorem insert_section_leaves_two_blank_lines:
  "process_md_command depth ext ''INSERT_SECTION(x)''
     ((initial_context m d)\<lparr>sections := [''x'' \<mapsto> ''a'' @ [NL, NL, NL, NL] @ ''b'']\<rparr>)
   = Inr ((initial_context m d)\<lparr>sections := [''x'' \<mapsto> ''a'' @ [NL, NL, NL, NL] @ ''b''],
            output := ''a'' @ [NL, NL, NL] @ ''b'' @ [NL, NL]\<rparr>)"
  using simplify_md_four_newlines
  by (simp add: process_md_command_def insert_section_parts initial_context_def)


subsection \<open>When the current section is reset\<close>

lemma process_comments_reset:
  "process_comments reenter src True filename comments ctx = Inr ctx'
     \<Longrightarrow> comments \<noteq> [] \<Longrightarrow> currentSection ctx' = []"
proof (induction comments arbitrary: ctx)
  case Nil
  then show ?case by simp
next
  case (Cons comment comments)
  from Cons.prems(1) obtain c1 where
    1: "process_comment reenter src True filename comment ctx = Inr c1"
    and 2: "process_comments reenter src True filename comments c1 = Inr ctx'"
    by (auto split: sum.splits)
  from 1 have "currentSection c1 = []"
    by (auto simp: process_comment_def split: sum.splits)
  with 2 Cons.IH show ?case
    by (cases comments) auto
qed

lemma process_source_unfold:
  "process_source depth = process_source_body (case depth of 0 \<Rightarrow> (\<lambda>src context realSource filename. Inl Still_expanding) | Suc d \<Rightarrow> process_source d)"
  by (cases depth) simp_all

text \<open>
  C1 (as the code has it). In a real source file (\<^verbatim>\<open>realSource\<close> true, as \<^verbatim>\<open>PROCESS_SOURCES\<close>
  passes it) the current section is set back to the main selector at the end of every
  comment, so once per comment and not once per file: every comment after the first is
  interpreted from the main selector, whatever section the comment before it had selected,
  and a file with at least one comment ends with the main selector.
\<close>

theorem current_section_reset_after_each_comment:
  "(process_comment reenter src True filename comment context = Inr context1
      \<longrightarrow> currentSection context1 = []
        \<and> process_comments reenter src True filename (comment # comments) context
            = process_comments reenter src True filename comments context1)
   \<and> (process_source depth src context True filename = Inr context'
        \<longrightarrow> extract_comments src 0 \<noteq> Inr [] \<longrightarrow> currentSection context' = [])"
proof (intro conjI impI)
  assume "process_comment reenter src True filename comment context = Inr context1"
  then show "currentSection context1 = []"
    by (auto simp: process_comment_def split: sum.splits)
next
  assume "process_comment reenter src True filename comment context = Inr context1"
  then show "process_comments reenter src True filename (comment # comments) context
      = process_comments reenter src True filename comments context1"
    by simp
next
  assume r: "process_source depth src context True filename = Inr context'"
    and ne: "extract_comments src 0 \<noteq> Inr []"
  from r obtain comments reenter where "extract_comments src 0 = Inr comments"
    and "process_comments reenter src True filename comments context = Inr context'"
    by (subst (asm) process_source_unfold) (auto simp: process_source_body_def split: sum.splits)
  with ne show "currentSection context' = []"
    using process_comments_reset by auto
qed

lemma two_comments_run:
  "map_sum id currentSection (process_source 0 two_comments_src empty_context True ''a.cpp'') = Inr []"
  by code_simp

lemma first_comment_run:
  "map_sum id currentSection
     (process_comment (process_source 0) two_comments_src True ''a.cpp''
        \<lparr>cm_index = 0, cm_end_index = 29, cm_comment = ''@DOC @SECTION(x) a @END''\<rparr> empty_context)
     = Inr []"
  by code_simp

theorem current_section_reset_witness:
  "map_sum id currentSection
     (process_comment (process_source 0) two_comments_src True ''a.cpp''
        \<lparr>cm_index = 0, cm_end_index = 29, cm_comment = ''@DOC @SECTION(x) a @END''\<rparr> empty_context)
     = Inr []
   \<and> map_sum id currentSection (process_source 0 two_comments_src empty_context True ''a.cpp'')
     = Inr []"
proof -
  from first_comment_run obtain c1 where
    1: "process_comment (process_source 0) two_comments_src True ''a.cpp''
        \<lparr>cm_index = 0, cm_end_index = 29, cm_comment = ''@DOC @SECTION(x) a @END''\<rparr> empty_context
        = Inr c1"
    by (auto simp: map_sum_Inr_iff)
  from two_comments_run obtain c2 where
    2: "process_source 0 two_comments_src empty_context True ''a.cpp'' = Inr c2"
    by (auto simp: map_sum_Inr_iff)
  have 3: "extract_comments two_comments_src 0 \<noteq> Inr []"
    by code_simp
  show ?thesis
    using current_section_reset_after_each_comment
      [of "process_source 0" two_comments_src "''a.cpp''"
          "\<lparr>cm_index = 0, cm_end_index = 29, cm_comment = ''@DOC @SECTION(x) a @END''\<rparr>"
          empty_context c1 "[]" 0 c2]
      1 2 3
    by simp
qed

text \<open>
  C1 as stated fails: in the file of two comments the section \<^verbatim>\<open>x\<close> selected in the first
  comment is not selected any more in the second, whose text \<^verbatim>\<open> b \<close> goes to the main buffer
  (after the blank that precedes \<^verbatim>\<open>@SECTION\<close> in the first comment).
\<close>

theorem section_not_kept_counterexample:
  "map_sum id mainSection (process_source 0 two_comments_src empty_context True ''a.cpp'')
     = Inr ''  b ''
   \<and> map_sum id (section_text ''x'') (process_source 0 two_comments_src empty_context True ''a.cpp'')
     = Inr (Some '' a '')"
  by code_simp

subsection \<open>FUNC\_ARG\<close>

lemma strip_FUNC_ARG: "strip ''FUNC_ARG'' = ''FUNC_ARG''"
  by code_simp

lemma process_src_command_FUNC_ARG:
  "process_src_command reenter ''FUNC_ARG'' args ctx comment src simplify filename
     = func_arg simplify args src (cm_end_index comment) ctx"
  by (subst process_src_command.simps) (simp add: strip_FUNC_ARG at0_def)

lemma stoi_range: "stoi n = Inr k \<Longrightarrow> - (2 ^ 31) \<le> k \<and> k < 2 ^ 31"
  by (auto simp: stoi_def Let_def split: if_splits)

lemma int_of_size_wrap:
  assumes "- (2 ^ 31) \<le> v" "v < 2 ^ 31"
  shows "int_of_size (v mod 2 ^ 64) = v"
proof -
  have "(v mod 2 ^ 64) mod 2 ^ 32 = v mod 2 ^ 32"
    by (simp add: mod_mod_cancel)
  moreover have "v mod 2 ^ 32 = (if v < 0 then v + 2 ^ 32 else v)"
  proof (cases "v < 0")
    case True
    have "v mod 2 ^ 32 = (v + 2 ^ 32) mod 2 ^ 32"
      by simp
    also have "\<dots> = v + 2 ^ 32"
      by (rule mod_pos_pos_trivial) (use assms True in auto)
    finally show ?thesis using True by simp
  next
    case False
    with assms show ?thesis by (simp add: mod_pos_pos_trivial)
  qed
  ultimately show ?thesis
    using assms by (auto simp: int_of_size_def Let_def)
qed

lemma stoi_examples: "stoi ''-1'' = Inr (- 1)" "stoi ''2'' = Inr 2" "stoi ''3'' = Inr 3"
  by code_simp+

lemma func_arg_select:
  assumes "func_arg_list src (cm_end_index comment) = Inr argss"
    and "length argss < 2 ^ 31" and "stoi n = Inr k"
  shows "process_src_command reenter ''FUNC_ARG'' [n] ctx comment src simplify filename
     = (if 0 \<le> (if k < 0 then int (length argss) + k else k)
            \<and> (if k < 0 then int (length argss) + k else k) < int (length argss)
        then Inr (process_str simplify
                    (argss ! nat (if k < 0 then int (length argss) + k else k)) ctx)
        else Inr (ctx\<lparr>cerr := cerr ctx @ [''Error: Argument '' @ n @ '' not found'' @ [NL]]\<rparr>))"
proof -
  note r = stoi_range [OF assms(3)]
  show ?thesis
  proof (cases "k < 0")
    case True
    have "int_of_size ((int (length argss) + k) mod 2 ^ 64) = int (length argss) + k"
      using r assms(2) True by (intro int_of_size_wrap) auto
    with True assms show ?thesis
      by (auto simp: process_src_command_FUNC_ARG func_arg_def report_def Let_def)
  next
    case False
    with assms show ?thesis
      by (auto simp: process_src_command_FUNC_ARG func_arg_def report_def Let_def)
  qed
qed

text \<open>
  What \<^verbatim>\<open>FUNC_ARG\<close> does when \<^verbatim>\<open>std::stoi\<close> accepts its argument. When the argument list of the
  declaration after the comment splits into three arguments, \<^verbatim>\<open>FUNC_ARG(-1)\<close> does exactly
  what \<^verbatim>\<open>FUNC_ARG(2)\<close> does, which is to append the third argument, and \<^verbatim>\<open>FUNC_ARG(3)\<close> writes
  an error message and changes nothing else. For a list of fewer than \<open>2 ^ 31\<close> arguments
  and an argument \<open>n\<close> that \<^verbatim>\<open>std::stoi\<close> reads as \<open>k\<close>, a negative \<open>k\<close> stands for
  \<open>length + k\<close>; an index in \<open>[0, length)\<close> appends that argument, any other one writes the
  error message and changes nothing else.
\<close>

theorem func_arg_negative_index:
  assumes "func_arg_list src (cm_end_index comment) = Inr argss"
  shows "(length argss = 3 \<longrightarrow>
            process_src_command reenter ''FUNC_ARG'' [''-1''] ctx comment src simplify filename
              = process_src_command reenter ''FUNC_ARG'' [''2''] ctx comment src simplify filename
          \<and> process_src_command reenter ''FUNC_ARG'' [''2''] ctx comment src simplify filename
              = Inr (process_str simplify (argss ! 2) ctx)
          \<and> process_src_command reenter ''FUNC_ARG'' [''3''] ctx comment src simplify filename
              = Inr (ctx\<lparr>cerr := cerr ctx @ [''Error: Argument 3 not found'' @ [NL]]\<rparr>))
       \<and> (length argss < 2 ^ 31 \<longrightarrow> stoi n = Inr k \<longrightarrow>
            process_src_command reenter ''FUNC_ARG'' [n] ctx comment src simplify filename
              = (if 0 \<le> (if k < 0 then int (length argss) + k else k)
                     \<and> (if k < 0 then int (length argss) + k else k) < int (length argss)
                 then Inr (process_str simplify
                             (argss ! nat (if k < 0 then int (length argss) + k else k)) ctx)
                 else Inr (ctx\<lparr>cerr := cerr ctx @ [''Error: Argument '' @ n @ '' not found'' @ [NL]]\<rparr>)))"
proof (intro conjI impI)
  assume 3: "length argss = 3"
  then have lt: "length argss < 2 ^ 31" by simp
  note sel = func_arg_select [OF assms lt, of _ _ reenter ctx simplify filename]
  show "process_src_command reenter ''FUNC_ARG'' [''-1''] ctx comment src simplify filename
      = process_src_command reenter ''FUNC_ARG'' [''2''] ctx comment src simplify filename"
    using sel [OF stoi_examples(1)] sel [OF stoi_examples(2)] 3 by simp
  show "process_src_command reenter ''FUNC_ARG'' [''2''] ctx comment src simplify filename
      = Inr (process_str simplify (argss ! 2) ctx)"
    using sel [OF stoi_examples(2)] 3 by simp
  show "process_src_command reenter ''FUNC_ARG'' [''3''] ctx comment src simplify filename
      = Inr (ctx\<lparr>cerr := cerr ctx @ [''Error: Argument 3 not found'' @ [NL]]\<rparr>)"
    using sel [OF stoi_examples(3)] 3 by simp
next
  assume "length argss < 2 ^ 31" "stoi n = Inr k"
  then show "process_src_command reenter ''FUNC_ARG'' [n] ctx comment src simplify filename
      = (if 0 \<le> (if k < 0 then int (length argss) + k else k)
             \<and> (if k < 0 then int (length argss) + k else k) < int (length argss)
         then Inr (process_str simplify
                     (argss ! nat (if k < 0 then int (length argss) + k else k)) ctx)
         else Inr (ctx\<lparr>cerr := cerr ctx @ [''Error: Argument '' @ n @ '' not found'' @ [NL]]\<rparr>))"
    by (rule func_arg_select [OF assms])
qed

lemma three_args_list:
  "func_arg_list three_args_src (cm_end_index three_args_comment)
     = Inr [''int a'', ''char b'', ''long c'']"
  by code_simp

theorem func_arg_negative_index_witness:
  "process_src_command (process_source 0) ''FUNC_ARG'' [''-1''] empty_context three_args_comment
       three_args_src False ''a.cpp''
     = Inr (process_string ''long c'' empty_context)
   \<and> process_src_command (process_source 0) ''FUNC_ARG'' [''3''] empty_context three_args_comment
       three_args_src False ''a.cpp''
     = Inr (empty_context\<lparr>cerr := cerr empty_context @ [''Error: Argument 3 not found'' @ [NL]]\<rparr>)
   \<and> process_src_command (process_source 0) ''FUNC_ARG'' [''-3''] empty_context three_args_comment
       three_args_src False ''a.cpp''
     = Inr (process_string ''int a'' empty_context)"
proof -
  have s: "stoi ''-3'' = Inr (- 3)" by code_simp
  from func_arg_negative_index [OF three_args_list, of "process_source 0" empty_context False
      "''a.cpp''" "''-3''" "- 3"] s
  show ?thesis by (simp add: process_str_def)
qed

text \<open>
  C3. On the declaration with three arguments, \<^verbatim>\<open>FUNC_ARG(2147483648)\<close> asks for an index
  outside \<open>[0, 3)\<close>. No error message is written and processing does not go on:
  \<^verbatim>\<open>std::stoi\<close> at line 273 throws \<^verbatim>\<open>std::out_of_range\<close> before the range check of line 277
  is reached, nothing catches it, and the run ends there.
\<close>

theorem func_arg_large_index_aborts:
  "map_sum id cerr (process_source 0 large_index_src empty_context True ''a.cpp'')
     = Inl Exn_out_of_range"
  by code_simp

subsection \<open>An alias that invokes itself\<close>

lemma cycle_pseudo_comments: "extract_comments cycle_pseudo 0 = Inr [cycle_pseudo_comment]"
  by code_simp

lemma cycle_alias_source: "alias_source ''@X'' cycle_pseudo 18 = Inr cycle_pseudo"
  by code_simp

lemma strip_X: "strip ''X'' = ''X''"
  by code_simp

lemma process_src_command_X:
  "aliases ctx ''X'' = Some ''@X'' \<Longrightarrow>
   process_src_command reenter ''X'' [] ctx cycle_pseudo_comment cycle_pseudo False filename
     = reenter cycle_pseudo ctx False filename"
  by (subst process_src_command.simps)
     (simp add: strip_X at0_def cycle_pseudo_comment_def cycle_alias_source)

lemma aliases_process_char [simp]: "aliases (process_char c ctx) = aliases ctx"
  by (simp add: process_char_def)

lemma cycle_scan:
  "scan_fwd (\<lambda>c. \<not> (isalnum c \<or> c = CHR ''_'')) (''@DOC'' @ [NL] @ ''@X'' @ [NL] @ ''@END'') 1 = 4"
  "scan_fwd (\<lambda>c. \<not> (isalnum c \<or> c = CHR ''_'')) (''@DOC'' @ [NL] @ ''@X'' @ [NL] @ ''@END'') 6 = 7"
  "scan_fwd (\<lambda>c. \<not> (isalnum c \<or> c = CHR ''_'')) (''@DOC'' @ [NL] @ ''@X'' @ [NL] @ ''@END'') 9 = 12"
  by code_simp+

lemma cycle_interpret:
  assumes "aliases ctx ''X'' = Some ''@X''"
  shows "interpret_comment reenter cycle_pseudo_comment cycle_pseudo filename
           (''@DOC'' @ [NL] @ ''@X'' @ [NL] @ ''@END'') 0 False ctx
     = (case reenter cycle_pseudo (process_char NL ctx) False filename of
          Inl x \<Rightarrow> Inl x
        | Inr c \<Rightarrow> Inr (process_char NL c))"
  using assms
  by (simp add: interpret_comment.simps scan_fwd.simps Let_def isupper_def isalnum_def isdigit_def
        islower_def at0_def substr_def size_sub_def process_src_command_X
        split: sum.splits)

lemma cycle_body:
  assumes "aliases ctx ''X'' = Some ''@X''"
  shows "process_source_body reenter cycle_pseudo ctx False filename
     = (case reenter cycle_pseudo (process_char NL ctx) False filename of
          Inl x \<Rightarrow> Inl x
        | Inr c \<Rightarrow> Inr (process_char NL c))"
proof -
  have "cm_comment cycle_pseudo_comment = ''@DOC'' @ [NL] @ ''@X'' @ [NL] @ ''@END''"
    by (simp add: cycle_pseudo_comment_def)
  with cycle_interpret [OF assms, of reenter filename] show ?thesis
    by (simp add: process_source_body_def cycle_pseudo_comments process_comment_def
          split: sum.splits)
qed

lemma cycle_pseudo_diverges:
  "aliases ctx ''X'' = Some ''@X'' \<Longrightarrow>
     process_source depth cycle_pseudo ctx False filename = Inl Still_expanding"
proof (induction depth arbitrary: ctx)
  case 0
  then show ?case by (simp add: cycle_body)
next
  case (Suc depth)
  from Suc.prems have "aliases (process_char NL ctx) ''X'' = Some ''@X''"
    by simp
  then have "process_source depth cycle_pseudo (process_char NL ctx) False filename
      = Inl Still_expanding"
    by (rule Suc.IH)
  with Suc.prems show ?case by (simp add: cycle_body)
qed

lemma cycle_comments: "extract_comments cycle_src 0 = Inr [cycle_comment]"
  by code_simp

lemma cycle_src_alias_source: "alias_source ''@X'' cycle_src 18 = Inr cycle_pseudo"
  by code_simp

lemma cycle_src_command:
  "aliases ctx ''X'' = Some ''@X'' \<Longrightarrow>
   process_src_command reenter ''X'' [] ctx cycle_comment cycle_src False filename
     = reenter cycle_pseudo ctx False filename"
  by (subst process_src_command.simps)
     (simp add: strip_X at0_def cycle_comment_def cycle_src_alias_source)

lemma cycle_src_interpret:
  assumes "aliases ctx ''X'' = Some ''@X''"
    and "\<And>c. aliases c ''X'' = Some ''@X'' \<Longrightarrow> reenter cycle_pseudo c False filename = Inl Still_expanding"
  shows "interpret_comment reenter cycle_comment cycle_src filename ''@DOC @X @END'' 0 False ctx
     = Inl Still_expanding"
proof -
  have "aliases (process_char CHR '' '' ctx) ''X'' = Some ''@X''"
    using assms(1) by simp
  then have "reenter cycle_pseudo (process_char CHR '' '' ctx) False filename = Inl Still_expanding"
    by (rule assms(2))
  with assms(1) show ?thesis
    by (simp add: interpret_comment.simps scan_fwd.simps Let_def isupper_def isalnum_def isdigit_def
        islower_def at0_def substr_def size_sub_def cycle_src_command)
qed

lemma cycle_src_diverges:
  assumes "aliases ctx ''X'' = Some ''@X''"
  shows "process_source depth cycle_src ctx realSource filename = Inl Still_expanding"
proof -
  have c: "cm_comment cycle_comment = ''@DOC @X @END''"
    by (simp add: cycle_comment_def)
  show ?thesis
  proof (cases depth)
    case 0
    with cycle_src_interpret [OF assms, of "\<lambda>src c realSource filename. Inl Still_expanding" filename] c
    show ?thesis
      by (simp add: process_source_body_def cycle_comments process_comment_def)
  next
    case (Suc d)
    with cycle_src_interpret [OF assms, of "process_source d" filename] cycle_pseudo_diverges c
    show ?thesis
      by (simp add: process_source_body_def cycle_comments process_comment_def)
  qed
qed

text \<open>
  C9. With the alias \<^verbatim>\<open>X\<close> registered as \<^verbatim>\<open>@X\<close>, interpreting the file \<^verbatim>\<open>/* @DOC @X @END */\<close>
  does not return: whatever the number of nested alias expansions followed, the
  interpreter is still inside a further expansion of \<^verbatim>\<open>X\<close>. Nothing in the code detects
  the cycle or bounds the depth.
\<close>

theorem alias_cycle_never_returns:
  "process_source depth cycle_src cycle_context True ''a.cpp'' = Inl Still_expanding"
  by (rule cycle_src_diverges) (simp add: cycle_context_def)

subsection \<open>Errors and the end of the run\<close>




lemma process_src_command_SIMPLIFY_empty:
  "process_src_command reenter ''SIMPLIFY'' [] ctx comment src simplify filename
     = Inr (ctx\<lparr>cerr := cerr ctx @ [''Wrong number of arguments in SIMPLIFY!'' @ [NL]]\<rparr>)"
proof -
  have "strip ''SIMPLIFY'' = ''SIMPLIFY''" by code_simp
  then show ?thesis
    by (subst process_src_command.simps) (simp add: at0_def report_def)
qed



lemma process_md_command_no_sources:
  assumes "md_command_parts command = Inr (''PROCESS_SOURCES'', args)" "rglob ext args = []"
  shows "process_md_command depth ext command ctx
     = Inr (fold (\<lambda>a. report (a @ [NL])) args
              (ctx\<lparr>cerr := cerr ctx @ [''Error: No sources found'' @ [NL]]\<rparr>))"
  using assms by (simp add: process_md_command_def report_def)




















subsection \<open>The argument splitter\<close>

lemma state_after_start: "state_after src index index = (False, 0, 0, 0)"
  by (simp add: state_after_def)

lemma state_after_Suc:
  assumes "index \<le> k" "Suc k < length src"
  shows "state_after src index (Suc k) = lex_step (state_after src index k) (src ! Suc k)"
proof -
  have "take (Suc k - index) (drop (Suc index) src)
      = take (k - index) (drop (Suc index) src) @ [drop (Suc index) src ! (k - index)]"
    using assms by (simp add: Suc_diff_le take_Suc_conv_app_nth)
  moreover have "drop (Suc index) src ! (k - index) = src ! Suc k"
    using assms by simp
  ultimately show ?thesis
    by (simp add: state_after_def)
qed

lemma last_split_Suc:
  assumes "index < i"
  shows "last_split src index (Suc i) = (if splits_at src index i then i else last_split src index i)"
proof -
  from assms have "[Suc index ..< Suc i] = [Suc index ..< i] @ [i]"
    by simp
  then show ?thesis
    by (simp add: last_split_def)
qed

lemma last_split_start: "last_split src index (Suc index) = index"
  by (simp add: last_split_def)

lemma last_split_bounds: "index < n \<Longrightarrow> index \<le> last_split src index n \<and> last_split src index n < n"
proof (induction n)
  case 0
  then show ?case by simp
next
  case (Suc n)
  show ?case
  proof (cases "index = n")
    case True
    then show ?thesis by (simp add: last_split_start)
  next
    case False
    with Suc.prems have "index < n" by simp
    with Suc.IH show ?thesis
      by (auto simp: last_split_Suc)
  qed
qed

lemma chain_lex:
  "lex_step (q, d) c =
     (if (if c = DQ then \<not> q else q) then (True, d) else (False, fst (bracket_chain c d)))"
  by (cases d) (auto simp: lex_step_def bracket_chain_def)

lemma chain_comma: "snd (bracket_chain c d) = (c = CHR '','' \<and> d = (0, 0, 0))"
  by (cases d) (auto simp: bracket_chain_def)

lemma chain_same: "c = CHR '','' \<Longrightarrow> fst (bracket_chain c d) = d"
  by (cases d) (auto simp: bracket_chain_def)

lemma chain_round:
  "fst (fst (bracket_chain c d))
     = fst d + (if c = CHR ''('' then 1 else if c = CHR '')'' then - 1 else 0)"
  by (cases d) (auto simp: bracket_chain_def)

lemma last_dropWhile: "dropWhile P xs \<noteq> [] \<Longrightarrow> last (dropWhile P xs) = last xs"
  by (induction xs) (auto split: if_splits)

lemma strip_trimmed: "trimmed (strip s)"
proof -
  define m where "m = dropWhile isspace s"
  define u where "u = dropWhile isspace (rev m)"
  have t: "strip s = rev u"
    by (simp add: strip_eq rtrim_def m_def u_def)
  show ?thesis
  proof (cases "u = []")
    case True
    with t show ?thesis by (simp add: trimmed_def)
  next
    case False
    then have hd_u: "\<not> isspace (hd u)"
      unfolding u_def using hd_dropWhile by blast
    from False have m_ne: "m \<noteq> []" by (auto simp: u_def)
    then have hd_m: "\<not> isspace (hd m)"
      unfolding m_def using hd_dropWhile by blast
    from False have "last u = last (rev m)"
      unfolding u_def by (rule last_dropWhile)
    with m_ne have "last u = hd m"
      by (simp add: last_rev)
    with hd_u hd_m False t show ?thesis
      by (simp add: trimmed_def hd_rev last_rev)
  qed
qed

text \<open>One iteration of the loop of \<open>parse_args\<close>.\<close>

lemma loop_quoted:
  assumes "i < length src" "(if src ! i = DQ then \<not> q else q)"
  shows "parse_args_loop src index i lp d q args = parse_args_loop src index (Suc i) lp d True args"
  using assms by (subst parse_args_loop.simps) (simp add: Let_def)

lemma loop_open:
  assumes "i < length src" "\<not> (if src ! i = DQ then \<not> q else q)" "lp < i"
    and "fst (fst (bracket_chain (src ! i) d)) \<noteq> - 1"
  shows "parse_args_loop src index i lp d q args
     = parse_args_loop src index (Suc i)
         (if snd (bracket_chain (src ! i) d) then i else lp)
         (fst (bracket_chain (src ! i) d)) False
         (if snd (bracket_chain (src ! i) d)
          then args @ [strip (take (i - Suc lp) (drop (Suc lp) src))] else args)"
  using assms
  by (subst parse_args_loop.simps)
     (simp add: Let_def substr_def size_sub_def case_prod_beta)

lemma loop_close:
  assumes "i < length src" "\<not> (if src ! i = DQ then \<not> q else q)" "lp < i"
    and "fst (fst (bracket_chain (src ! i) d)) = - 1" "src ! i = CHR '')''"
  shows "parse_args_loop src index i lp d q args
     = Inr (args @ [strip (take (i - Suc lp) (drop (Suc lp) src))], i)"
proof -
  have "scan_fwd (\<lambda>c. c = CHR '')'') src i = i"
    using assms(5) by (subst scan_fwd.simps) simp
  moreover have "\<not> snd (bracket_chain (src ! i) d)"
    using assms(5) by (simp add: chain_comma)
  ultimately show ?thesis
    using assms
    by (subst parse_args_loop.simps)
       (simp add: Let_def substr_def size_sub_def case_prod_beta)
qed

lemma loop_end:
  assumes "length src \<le> i" "lp < length src"
  shows "parse_args_loop src index i lp d q args
     = Inr (args @ [strip (butlast (drop (Suc lp) src))], index)"
proof -
  have "take (size_sub (size_sub (length src) lp) 2) (drop (Suc lp) src) = butlast (drop (Suc lp) src)"
  proof (cases "Suc lp = length src")
    case True
    then show ?thesis by simp
  next
    case False
    with assms(2) have "size_sub (size_sub (length src) lp) 2 = length (drop (Suc lp) src) - 1"
      by (simp add: size_sub_def)
    then show ?thesis
      by (simp add: butlast_conv_take)
  qed
  with assms show ?thesis
    by (subst parse_args_loop.simps) (simp add: substr_def)
qed

text \<open>The loop at position \<open>Suc m\<close>, in the state the specification gives after position \<open>m\<close>.\<close>

lemma state_after_step:
  assumes "index \<le> m" "Suc m < length src" "state_after src index m = (q, d)"
  shows "state_after src index (Suc m)
     = (if (if src ! Suc m = DQ then \<not> q else q) then (True, d)
        else (False, fst (bracket_chain (src ! Suc m) d)))"
  using assms by (simp add: state_after_Suc chain_lex)

lemma splits_at_step:
  assumes "index \<le> m" "Suc m < length src" "state_after src index m = (q, d)"
  shows "splits_at src index (Suc m)
     = (\<not> (if src ! Suc m = DQ then \<not> q else q) \<and> snd (bracket_chain (src ! Suc m) d))"
  using state_after_step [OF assms] chain_same [of "src ! Suc m" d]
  by (auto simp: splits_at_def chain_comma)

lemma closes_at_step:
  assumes "index \<le> m" "Suc m < length src" "state_after src index m = (q, d)" "0 \<le> fst d"
  shows "closes_at src index (Suc m)
     = (\<not> (if src ! Suc m = DQ then \<not> q else q) \<and> src ! Suc m = CHR '')'' \<and> fst d = 0)"
  using state_after_step [OF assms(1-3)] assms(4) chain_round [of "src ! Suc m" d]
  by (auto simp: closes_at_def)

lemma inv_step:
  assumes "index \<le> m" "Suc m < length src" "state_after src index m = (q, d)" "0 \<le> fst d"
    and "lp = last_split src index (Suc m)" "\<not> closes_at src index (Suc m)"
  shows "0 \<le> fst (snd (state_after src index (Suc m)))
     \<and> parse_args_loop src index (Suc m) lp d q args
        = parse_args_loop src index (Suc (Suc m)) (last_split src index (Suc (Suc m)))
            (snd (state_after src index (Suc m))) (fst (state_after src index (Suc m)))
            (args @ (if splits_at src index (Suc m)
                     then [strip (take (m - lp) (drop (Suc lp) src))] else []))"
proof -
  let ?c = "src ! Suc m"
  from assms(1) have lt: "index < Suc m" by simp
  from last_split_bounds [OF lt] assms(5) have lp: "lp < Suc m" by simp
  note st = state_after_step [OF assms(1-3)]
  note sp = splits_at_step [OF assms(1-3)]
  note cl = closes_at_step [OF assms(1-4)]
  note ls = last_split_Suc [OF lt, of src]
  show ?thesis
  proof (cases "if ?c = DQ then \<not> q else q")
    case True
    with st sp ls assms(4,5) loop_quoted [OF assms(2) True, of index lp d args] show ?thesis
      by simp
  next
    case False
    have r: "fst (fst (bracket_chain ?c d)) = fst d + (if ?c = CHR ''('' then 1 else if ?c = CHR '')'' then - 1 else 0)"
      by (rule chain_round)
    from False cl assms(4,6) r have ne: "fst (fst (bracket_chain ?c d)) \<noteq> - 1"
      by (auto split: if_splits)
    from False cl assms(4,6) r have nn: "0 \<le> fst (fst (bracket_chain ?c d))"
      by (auto split: if_splits)
    from loop_open [OF assms(2) False lp ne, of index args] st sp ls assms(5) nn False
    show ?thesis
      by auto
  qed
qed

lemma inv_close:
  assumes "closes_at src index k" "k < length src"
  shows "index \<le> m \<Longrightarrow> k = m + Suc n \<Longrightarrow> state_after src index m = (q, d) \<Longrightarrow> 0 \<le> fst d
    \<Longrightarrow> lp = last_split src index (Suc m)
    \<Longrightarrow> \<forall>j. m < j \<and> j < k \<longrightarrow> \<not> closes_at src index j
    \<Longrightarrow> \<exists>new. parse_args_loop src index (Suc m) lp d q args = Inr (args @ new, k)
          \<and> new \<noteq> []
          \<and> last new = strip (take (k - Suc (last_split src index k))
                                (drop (Suc (last_split src index k)) src))
          \<and> length new = Suc (length (filter (splits_at src index) [Suc m ..< k]))
          \<and> (\<forall>a\<in>set new. trimmed a) \<and> src ! k = CHR '')''"
proof (induction n arbitrary: m q d lp args)
  case 0
  then have k: "k = Suc m" by simp
  from assms(2) k have len: "Suc m < length src" by simp
  from closes_at_step [OF "0.prems"(1) len "0.prems"(3,4)] assms(1) k
  have nq: "\<not> (if src ! Suc m = DQ then \<not> q else q)" and c: "src ! Suc m = CHR '')''"
    and z: "fst d = 0"
    by auto
  from c z chain_round [of "src ! Suc m" d] have m1: "fst (fst (bracket_chain (src ! Suc m) d)) = - 1"
    by simp
  from "0.prems"(1) have "index < Suc m" by simp
  from last_split_bounds [OF this] "0.prems"(5) have lp: "lp < Suc m" by simp
  from loop_close [OF len nq lp m1 c, of index args] k "0.prems"(5) c strip_trimmed
  show ?case by simp
next
  case (Suc n)
  then have k: "k = Suc m + Suc n" by simp
  with assms(2) have len: "Suc m < length src" by simp
  from Suc.prems(6) k have ncl: "\<not> closes_at src index (Suc m)" by simp
  note step = inv_step [OF Suc.prems(1) len Suc.prems(3,4,5) ncl, of args]
  let ?pre = "if splits_at src index (Suc m) then [strip (take (m - lp) (drop (Suc lp) src))] else []"
  have "\<exists>new. parse_args_loop src index (Suc (Suc m)) (last_split src index (Suc (Suc m)))
            (snd (state_after src index (Suc m))) (fst (state_after src index (Suc m)))
            (args @ ?pre) = Inr ((args @ ?pre) @ new, k)
          \<and> new \<noteq> []
          \<and> last new = strip (take (k - Suc (last_split src index k))
                                (drop (Suc (last_split src index k)) src))
          \<and> length new = Suc (length (filter (splits_at src index) [Suc (Suc m) ..< k]))
          \<and> (\<forall>a\<in>set new. trimmed a) \<and> src ! k = CHR '')''"
  proof (rule Suc.IH)
    show "index \<le> Suc m" using Suc.prems(1) by simp
    show "k = Suc m + Suc n" by (rule k)
    show "state_after src index (Suc m)
        = (fst (state_after src index (Suc m)), snd (state_after src index (Suc m)))"
      by simp
    show "0 \<le> fst (snd (state_after src index (Suc m)))" using step by simp
    show "last_split src index (Suc (Suc m)) = last_split src index (Suc (Suc m))" ..
    show "\<forall>j. Suc m < j \<and> j < k \<longrightarrow> \<not> closes_at src index j"
      using Suc.prems(6) by auto
  qed
  then obtain new where new:
    "parse_args_loop src index (Suc m) lp d q args = Inr (args @ ?pre @ new, k)"
    "new \<noteq> []"
    "last new = strip (take (k - Suc (last_split src index k))
                                (drop (Suc (last_split src index k)) src))"
    "length new = Suc (length (filter (splits_at src index) [Suc (Suc m) ..< k]))"
    "\<forall>a\<in>set new. trimmed a" "src ! k = CHR '')''"
    using step by auto
  from k have "[Suc m ..< k] = Suc m # [Suc (Suc m) ..< k]"
    by (simp add: upt_conv_Cons)
  with new strip_trimmed show ?case
    by (intro exI [of _ "?pre @ new"]) auto
qed

lemma inv_end:
  shows "index \<le> m \<Longrightarrow> length src = m + Suc n \<Longrightarrow> state_after src index m = (q, d) \<Longrightarrow> 0 \<le> fst d
    \<Longrightarrow> lp = last_split src index (Suc m)
    \<Longrightarrow> \<forall>j. m < j \<and> j < length src \<longrightarrow> \<not> closes_at src index j
    \<Longrightarrow> \<exists>new. parse_args_loop src index (Suc m) lp d q args = Inr (args @ new, index)
          \<and> new \<noteq> []
          \<and> last new = strip (butlast (drop (Suc (last_split src index (length src))) src))
          \<and> length new = Suc (length (filter (splits_at src index) [Suc m ..< length src]))
          \<and> (\<forall>a\<in>set new. trimmed a)"
proof (induction n arbitrary: m q d lp args)
  case 0
  then have len: "length src = Suc m" by simp
  from "0.prems"(1) have "index < Suc m" by simp
  from last_split_bounds [OF this] "0.prems"(5) len have lp: "lp < length src" by simp
  from loop_end [OF _ lp, of "Suc m" index d q args] len "0.prems"(5) strip_trimmed
  show ?case by simp
next
  case (Suc n)
  then have len: "Suc m < length src" and l: "length src = Suc m + Suc n" by simp_all
  from Suc.prems(6) len have ncl: "\<not> closes_at src index (Suc m)" by simp
  note step = inv_step [OF Suc.prems(1) len Suc.prems(3,4,5) ncl, of args]
  let ?pre = "if splits_at src index (Suc m) then [strip (take (m - lp) (drop (Suc lp) src))] else []"
  have "\<exists>new. parse_args_loop src index (Suc (Suc m)) (last_split src index (Suc (Suc m)))
            (snd (state_after src index (Suc m))) (fst (state_after src index (Suc m)))
            (args @ ?pre) = Inr ((args @ ?pre) @ new, index)
          \<and> new \<noteq> []
          \<and> last new = strip (butlast (drop (Suc (last_split src index (length src))) src))
          \<and> length new = Suc (length (filter (splits_at src index) [Suc (Suc m) ..< length src]))
          \<and> (\<forall>a\<in>set new. trimmed a)"
  proof (rule Suc.IH)
    show "index \<le> Suc m" using Suc.prems(1) by simp
    show "length src = Suc m + Suc n" by (rule l)
    show "state_after src index (Suc m)
        = (fst (state_after src index (Suc m)), snd (state_after src index (Suc m)))"
      by simp
    show "0 \<le> fst (snd (state_after src index (Suc m)))" using step by simp
    show "last_split src index (Suc (Suc m)) = last_split src index (Suc (Suc m))" ..
    show "\<forall>j. Suc m < j \<and> j < length src \<longrightarrow> \<not> closes_at src index j"
      using Suc.prems(6) by auto
  qed
  then obtain new where new:
    "parse_args_loop src index (Suc m) lp d q args = Inr (args @ ?pre @ new, index)"
    "new \<noteq> []"
    "last new = strip (butlast (drop (Suc (last_split src index (length src))) src))"
    "length new = Suc (length (filter (splits_at src index) [Suc (Suc m) ..< length src]))"
    "\<forall>a\<in>set new. trimmed a"
    using step by auto
  from len have "[Suc m ..< length src] = Suc m # [Suc (Suc m) ..< length src]"
    by (simp add: upt_conv_Cons)
  with new strip_trimmed show ?case
    by (intro exI [of _ "?pre @ new"]) auto
qed

lemma parse_args_closing:
  assumes "index < k" "k < length src" "closes_at src index k"
    and "\<forall>j. index < j \<and> j < k \<longrightarrow> \<not> closes_at src index j"
  shows "\<exists>args. parse_args src index = Inr (args, k) \<and> args \<noteq> []
          \<and> last args = strip (take (k - Suc (last_split src index k))
                                 (drop (Suc (last_split src index k)) src))
          \<and> length args = Suc (length (filter (splits_at src index) [Suc index ..< k]))
          \<and> (\<forall>a\<in>set args. trimmed a) \<and> src ! k = CHR '')''"
proof -
  from assms(1) have k: "k = index + Suc (k - Suc index)" by simp
  have st: "state_after src index index = (False, (0, 0, 0))"
    by (rule state_after_start)
  from inv_close [OF assms(3,2) le_refl k st _ last_split_start [symmetric] assms(4), of "[]"]
  show ?thesis by (simp add: parse_args_def)
qed

lemma parse_args_open:
  assumes "index < length src" "\<forall>j. index < j \<and> j < length src \<longrightarrow> \<not> closes_at src index j"
  shows "\<exists>args. parse_args src index = Inr (args, index) \<and> args \<noteq> []
          \<and> last args = strip (butlast (drop (Suc (last_split src index (length src))) src))
          \<and> length args = Suc (length (filter (splits_at src index) [Suc index ..< length src]))
          \<and> (\<forall>a\<in>set args. trimmed a)"
proof -
  from assms(1) have l: "length src = index + Suc (length src - Suc index)" by simp
  have st: "state_after src index index = (False, (0, 0, 0))"
    by (rule state_after_start)
  from inv_end [OF le_refl l st _ last_split_start [symmetric] assms(2), of "[]"]
  show ?thesis by (simp add: parse_args_def)
qed

text \<open>
  C6. When the round-bracket depth goes negative during the scan, and \<open>k\<close> is the first
  position after which it is, the splitter does not fail: the scan forward from \<open>k\<close> for
  a closing round bracket stops at \<open>k\<close> itself, the index is left on it, and the final
  argument is the trimmed text between the last splitting comma (the opening delimiter
  when there is none) and that bracket.
\<close>

theorem parse_args_fallback:
  assumes "index < k" "k < length src" "closes_at src index k"
    and "\<forall>j\<in>{Suc index ..< k}. \<not> closes_at src index j"
  shows "\<exists>args. parse_args src index = Inr (args, k) \<and> args \<noteq> []
          \<and> src ! k = CHR '')'' \<and> scan_fwd (\<lambda>c. c = CHR '')'') src k = k
          \<and> last args = strip (take (k - Suc (last_split src index k))
                                 (drop (Suc (last_split src index k)) src))"
proof -
  from assms(4) have "\<forall>j. index < j \<and> j < k \<longrightarrow> \<not> closes_at src index j"
    by auto
  from parse_args_closing [OF assms(1-3) this] obtain args where
    a: "parse_args src index = Inr (args, k)" "args \<noteq> []" "src ! k = CHR '')''"
      "last args = strip (take (k - Suc (last_split src index k))
                                 (drop (Suc (last_split src index k)) src))"
    by blast
  from a(3) have "scan_fwd (\<lambda>c. c = CHR '')'') src k = k"
    by (subst scan_fwd.simps) simp
  with a show ?thesis by blast
qed

lemma splitter_example_scan:
  "list_all (\<lambda>j. \<not> closes_at splitter_example 0 j) [Suc 0 ..< 16]"
  by code_simp

lemma splitter_example_closes:
  "closes_at splitter_example 0 16" "\<forall>j\<in>{Suc 0 ..< 16}. \<not> closes_at splitter_example 0 j"
  "last_split splitter_example 0 16 = 9"
proof -
  show "closes_at splitter_example 0 16" by code_simp
  show "\<forall>j\<in>{Suc 0 ..< 16}. \<not> closes_at splitter_example 0 j"
    using splitter_example_scan by (simp add: list_all_iff)
  show "last_split splitter_example 0 16 = 9" by code_simp
qed

theorem parse_args_fallback_witness:
  "\<exists>args. parse_args splitter_example 0 = Inr (args, 16) \<and> args \<noteq> []
     \<and> last args = [DQ] @ ''d,e'' @ [DQ]"
proof -
  have l: "(16::nat) < length splitter_example"
    by (simp add: splitter_example_def)
  have s: "strip (take (16 - Suc 9) (drop (Suc 9) splitter_example)) = [DQ] @ ''d,e'' @ [DQ]"
    by code_simp
  from parse_args_fallback [OF _ l splitter_example_closes(1,2)] s
  show ?thesis by (auto simp: splitter_example_closes(3))
qed

text \<open>
  C10. When the scan reaches the end of the buffer and the round-bracket depth has never
  been negative, the final argument is the trimmed text that follows the last splitting
  comma (the opening delimiter when there is none) without its last character, and the
  index is left where it was.
\<close>

theorem parse_args_unclosed:
  assumes "index < length src" "\<forall>j\<in>{Suc index ..< length src}. \<not> closes_at src index j"
  shows "\<exists>args. parse_args src index = Inr (args, index) \<and> args \<noteq> []
          \<and> last args = strip (butlast (drop (Suc (last_split src index (length src))) src))"
proof -
  from assms(2) have "\<forall>j. index < j \<and> j < length src \<longrightarrow> \<not> closes_at src index j"
    by auto
  from parse_args_open [OF assms(1) this] show ?thesis by blast
qed

lemma unclosed_example_scan:
  "list_all (\<lambda>j. \<not> closes_at unclosed_example 0 j) [Suc 0 ..< 8]"
  by code_simp

lemma unclosed_example_open:
  "\<forall>j\<in>{Suc 0 ..< length unclosed_example}. \<not> closes_at unclosed_example 0 j"
  "last_split unclosed_example 0 (length unclosed_example) = 2"
proof -
  have l: "length unclosed_example = 8"
    by (simp add: unclosed_example_def)
  show "\<forall>j\<in>{Suc 0 ..< length unclosed_example}. \<not> closes_at unclosed_example 0 j"
    using unclosed_example_scan by (simp add: l list_all_iff)
  have "last_split unclosed_example 0 8 = 2" by code_simp
  then show "last_split unclosed_example 0 (length unclosed_example) = 2"
    by (simp add: l)
qed

theorem parse_args_unclosed_witness:
  "\<exists>args. parse_args unclosed_example 0 = Inr (args, 0) \<and> args \<noteq> []
     \<and> last args = [DQ] @ ''b,''"
proof -
  have l: "0 < length unclosed_example"
    by (simp add: unclosed_example_def)
  have s: "strip (butlast (drop (Suc 2) unclosed_example)) = [DQ] @ ''b,''"
    by code_simp
  from parse_args_unclosed [OF l unclosed_example_open(1)] s
  show ?thesis by (auto simp: unclosed_example_open(2))
qed

lemma parse_args_count:
  assumes "index < length src" "parse_args src index = Inr (args, j)"
  shows "(\<forall>a\<in>set args. trimmed a)
    \<and> length args = Suc (length (filter (splits_at src index)
                                    [Suc index ..< (if j = index then length src else j)]))"
proof (cases "\<exists>k. index < k \<and> k < length src \<and> closes_at src index k")
  case True
  define k where "k = (LEAST k. index < k \<and> k < length src \<and> closes_at src index k)"
  from True have k: "index < k \<and> k < length src \<and> closes_at src index k"
    unfolding k_def by (rule LeastI_ex)
  have "\<forall>i. index < i \<and> i < k \<longrightarrow> \<not> closes_at src index i"
  proof (intro allI impI)
    fix i assume i: "index < i \<and> i < k"
    then have "\<not> (index < i \<and> i < length src \<and> closes_at src index i)"
      unfolding k_def using not_less_Least by blast
    with i k show "\<not> closes_at src index i" by simp
  qed
  with parse_args_closing [of index k src] k assms(2) show ?thesis
    by auto
next
  case False
  then have "\<forall>i. index < i \<and> i < length src \<longrightarrow> \<not> closes_at src index i"
    by blast
  from parse_args_open [OF assms(1) this] assms(2) show ?thesis
    by auto
qed

text \<open>
  C2. On the buffer \<^verbatim>\<open>(a, (b,c), "d,e")\<close> with the opening bracket at index 0 the splitter
  returns the three strings \<^verbatim>\<open>a\<close>, \<^verbatim>\<open>(b,c)\<close> and \<^verbatim>\<open>"d,e"\<close>, and leaves the index on the closing
  bracket. On every buffer, every returned argument is trimmed, and there is one argument
  more than there are splitting commas in the part scanned (up to the closing bracket
  when the index was moved to it, up to the end otherwise): a comma inside a double-quoted
  literal, or at a depth other than zero in one of the three bracket families, does not
  split.
\<close>

theorem parse_args_example:
  "parse_args splitter_example 0 = Inr ([''a'', ''(b,c)'', [DQ] @ ''d,e'' @ [DQ]], 16)
   \<and> (index < length src \<and> parse_args src index = Inr (args, j) \<longrightarrow>
        (\<forall>a\<in>set args. trimmed a)
        \<and> length args = Suc (length (filter (splits_at src index)
                                       [Suc index ..< (if j = index then length src else j)])))"
proof (intro conjI impI)
  show "parse_args splitter_example 0 = Inr ([''a'', ''(b,c)'', [DQ] @ ''d,e'' @ [DQ]], 16)"
    by code_simp
next
  assume "index < length src \<and> parse_args src index = Inr (args, j)"
  then have "(\<forall>a\<in>set args. trimmed a)
    \<and> length args = Suc (length (filter (splits_at src index)
                                    [Suc index ..< (if j = index then length src else j)]))"
    by (intro parse_args_count) auto
  then show "\<forall>a\<in>set args. trimmed a"
    and "length args = Suc (length (filter (splits_at src index)
                                    [Suc index ..< (if j = index then length src else j)]))"
    by simp_all
qed

theorem parse_args_example_witness:
  "length (filter (splits_at splitter_example 0) [Suc 0 ..< 16]) = 2"
proof -
  have l: "0 < length splitter_example"
    by (simp add: splitter_example_def)
  from parse_args_example [of 0 splitter_example "[''a'', ''(b,c)'', [DQ] @ ''d,e'' @ [DQ]]" 16] l
  show ?thesis by auto
qed

subsection \<open>Alias expansion and inlining\<close>

lemma extract_comments_none: "opener_free s n \<Longrightarrow> extract_comments s n = Inr []"
proof (induction "length s - n" arbitrary: n)
  case 0
  then show ?case by (subst extract_comments.simps) simp
next
  case (Suc d)
  then have lt: "n < length s" by simp
  with Suc.prems have no: "\<not> (s ! n = CHR ''/'' \<and> (at0 s (n + 1) = CHR ''/'' \<or> at0 s (n + 1) = CHR ''*''))"
    by (simp add: opener_free_def)
  from Suc.prems have "opener_free s (Suc n)"
    by (simp add: opener_free_def)
  moreover from Suc.hyps(2) have "d = length s - Suc n" by simp
  ultimately have "extract_comments s (Suc n) = Inr []"
    by (intro Suc.hyps(1))
  with lt no show ?case
    by (subst extract_comments.simps) auto
qed

lemma find_str_first:
  "find_str s pat pos = Some e \<Longrightarrow> pos \<le> i \<Longrightarrow> i < e \<Longrightarrow> take (length pat) (drop i s) \<noteq> pat"
proof (induction s pat pos rule: find_str.induct)
  case (1 s pat pos)
  from "1.prems"(1) have a: "\<not> length s < pos + length pat"
    by (subst (asm) find_str.simps) (simp split: if_splits)
  show ?case
  proof (cases "take (length pat) (drop pos s) = pat")
    case True
    with "1.prems" a show ?thesis
      by (subst (asm) find_str.simps) simp
  next
    case False
    with "1.prems"(1) a have n: "find_str s pat (Suc pos) = Some e"
      by (subst (asm) find_str.simps) simp
    show ?thesis
    proof (cases "i = pos")
      case True
      with False show ?thesis by simp
    next
      case False
      with "1.prems"(2) have "Suc pos \<le> i" by simp
      from "1.IH" [OF a \<open>take (length pat) (drop pos s) \<noteq> pat\<close> n this "1.prems"(3)]
      show ?thesis .
    qed
  qed
qed

lemma find_str_None:
  "find_str s pat pos = None \<Longrightarrow> pos \<le> i \<Longrightarrow> i + length pat \<le> length s
     \<Longrightarrow> take (length pat) (drop i s) \<noteq> pat"
proof (induction s pat pos rule: find_str.induct)
  case (1 s pat pos)
  from "1.prems"(2,3) have a: "\<not> length s < pos + length pat" by simp
  show ?case
  proof (cases "take (length pat) (drop pos s) = pat")
    case True
    with "1.prems"(1) a show ?thesis
      by (subst (asm) find_str.simps) simp
  next
    case False
    with "1.prems"(1) a have n: "find_str s pat (Suc pos) = None"
      by (subst (asm) find_str.simps) simp
    show ?thesis
    proof (cases "i = pos")
      case True
      with False show ?thesis by simp
    next
      case False
      with "1.prems"(2) have "Suc pos \<le> i" by simp
      from "1.IH" [OF a \<open>take (length pat) (drop pos s) \<noteq> pat\<close> n this "1.prems"(3)]
      show ?thesis .
    qed
  qed
qed

lemma take2_drop: "Suc k < length s \<Longrightarrow> take (Suc (Suc 0)) (drop k s) = [s ! k, s ! Suc k]"
proof -
  assume a: "Suc k < length s"
  then have "drop k s = s ! k # drop (Suc k) s"
    by (simp add: Cons_nth_drop_Suc)
  moreover from a have "drop (Suc k) s = s ! Suc k # drop (Suc (Suc k)) s"
    by (simp add: Cons_nth_drop_Suc)
  ultimately show ?thesis
    by simp
qed

lemma no_pair_before:
  assumes "pat = [a, b]" "start \<le> k" "Suc k < length src"
    and "k + 2 \<le> (case find_str src pat start of None \<Rightarrow> length src | Some p \<Rightarrow> p)"
  shows "\<not> (src ! k = a \<and> src ! Suc k = b)"
proof (cases "find_str src pat start")
  case None
  from find_str_None [OF None assms(2)] assms(1,3) take2_drop [OF assms(3)] show ?thesis
    by auto
next
  case (Some p)
  with assms(4) have "k < p" by simp
  from find_str_first [OF Some assms(2) this] assms(1) take2_drop [OF assms(3)] show ?thesis
    by auto
qed

lemma alias_source_text:
  assumes "e < length src"
  shows "\<exists>next_scr. pair_free next_scr \<and> alias_source replacement src e
     = Inr (''/* @DOC'' @ [NL] @ replacement @ [NL] @ ''@END'' @ [NL] @ ''*/'' @ [NL] @ next_scr)"
proof -
  let ?start = "e + 1"
  let ?e1 = "case find_str src ''/*'' ?start of None \<Rightarrow> length src | Some p \<Rightarrow> p"
  let ?e2 = "case find_str src ''//'' ?start of None \<Rightarrow> length src | Some p \<Rightarrow> p"
  let ?endp = "if ?e2 < ?e1 then ?e2 else ?e1"
  let ?next = "take (size_sub ?endp ?start) (drop ?start src)"
  have e1: "?start \<le> ?e1"
    using assms find_str_Some [of src "''/*''" ?start] by (auto split: option.splits)
  have e1': "?e1 \<le> length src"
    using find_str_Some [of src "''/*''" ?start] by (auto split: option.splits)
  have e2: "?start \<le> ?e2"
    using assms find_str_Some [of src "''//''" ?start] by (auto split: option.splits)
  have e2': "?e2 \<le> length src"
    using find_str_Some [of src "''//''" ?start] by (auto split: option.splits)
  from e1 e2 have le: "?start \<le> ?endp" by simp
  then have sz: "size_sub ?endp ?start = ?endp - ?start"
    by (simp add: size_sub_def)
  from e1' e2' have le': "?endp \<le> length src" by simp
  have len: "length ?next = ?endp - ?start"
    unfolding sz using le' by simp
  have "pair_free ?next"
    unfolding pair_free_def
  proof (intro allI impI)
    fix i assume i: "Suc i < length ?next"
    then have b: "?start + Suc i < ?endp"
      unfolding len by simp
    with le' have l: "Suc (?start + i) < length src"
      by simp
    from i l have n0: "?next ! i = src ! (?start + i)" and n1: "?next ! Suc i = src ! Suc (?start + i)"
      unfolding sz by simp_all
    from b have b1: "(?start + i) + 2 \<le> ?e1" and b2: "(?start + i) + 2 \<le> ?e2"
      by (simp_all split: if_splits)
    have "\<not> (src ! (?start + i) = CHR ''/'' \<and> src ! Suc (?start + i) = CHR ''*'')"
      by (rule no_pair_before [OF _ _ l b1]) simp_all
    moreover have "\<not> (src ! (?start + i) = CHR ''/'' \<and> src ! Suc (?start + i) = CHR ''/'')"
      by (rule no_pair_before [OF _ _ l b2]) simp_all
    ultimately show "\<not> (?next ! i = CHR ''/'' \<and> (?next ! Suc i = CHR ''/'' \<or> ?next ! Suc i = CHR ''*''))"
      unfolding n0 n1 by blast
  qed
  moreover have "alias_source replacement src e
     = Inr (''/* @DOC'' @ [NL] @ replacement @ [NL] @ ''@END'' @ [NL] @ ''*/'' @ [NL] @ ?next)"
    using assms by (simp add: alias_source_def Let_def substr_def)
  ultimately show ?thesis by blast
qed

lemma hello_block_length: "length hello_block = 32"
  by (simp add: hello_block_def)

lemma hello_block_tail_free:
  assumes "pair_free next_scr"
  shows "opener_free (hello_block @ next_scr) 31"
  unfolding opener_free_def
proof (intro allI impI)
  fix i assume i: "31 \<le> i \<and> i < length (hello_block @ next_scr)"
  show "\<not> ((hello_block @ next_scr) ! i = CHR ''/''
      \<and> (at0 (hello_block @ next_scr) (i + 1) = CHR ''/'' \<or> at0 (hello_block @ next_scr) (i + 1) = CHR ''*''))"
  proof (cases "i = 31")
    case True
    then show ?thesis
      by (simp add: hello_block_def nth_append)
  next
    case False
    with i have ge: "32 \<le> i" by simp
    then have a: "(hello_block @ next_scr) ! i = next_scr ! (i - 32)"
      by (simp add: nth_append hello_block_length)
    show ?thesis
    proof (cases "i + 1 < length (hello_block @ next_scr)")
      case True
      moreover from ge have "i + 1 - 32 = Suc (i - 32)"
        by simp
      ultimately have "at0 (hello_block @ next_scr) (i + 1) = next_scr ! Suc (i - 32)"
        using ge by (simp add: at0_def nth_append hello_block_length)
      moreover from True ge have "Suc (i - 32) < length next_scr"
        by (simp add: hello_block_length)
      ultimately show ?thesis
        using assms a by (auto simp: pair_free_def)
    next
      case False
      then show ?thesis by (simp add: at0_def)
    qed
  qed
qed

lemma hello_block_inner:
  "strip (take 27 (drop 2 (hello_block @ next_scr))) = ''@DOC'' @ [NL] @ ''@DOC hello @END'' @ [NL] @ ''@END''"
proof -
  have "take 27 (drop 2 (hello_block @ next_scr))
      = '' @DOC'' @ [NL] @ ''@DOC hello @END'' @ [NL] @ ''@END'' @ [NL]"
    by (simp add: hello_block_def)
  moreover have "strip ('' @DOC'' @ [NL] @ ''@DOC hello @END'' @ [NL] @ ''@END'' @ [NL])
      = ''@DOC'' @ [NL] @ ''@DOC hello @END'' @ [NL] @ ''@END''"
    by code_simp
  ultimately show ?thesis by simp
qed

lemma hello_block_find: "find_str (hello_block @ next_scr) ''*/'' 0 = Some 29"
  by (simp add: find_str.simps hello_block_def)

lemma hello_block_comments:
  assumes "pair_free next_scr"
  shows "extract_comments (hello_block @ next_scr) 0 = Inr [hello_block_comment]"
proof -
  have "extract_comments (hello_block @ next_scr) 31 = Inr []"
    using assms by (intro extract_comments_none hello_block_tail_free)
  moreover have "(hello_block @ next_scr) ! 0 = CHR ''/''" "at0 (hello_block @ next_scr) (0 + 1) = CHR ''*''"
    by (simp_all add: hello_block_def at0_def)
  moreover have "strip (take 27 (drop (Suc (Suc 0)) (hello_block @ next_scr)))
      = ''@DOC'' @ [NL] @ ''@DOC hello @END'' @ [NL] @ ''@END''"
    using hello_block_inner [of next_scr] by (simp add: numeral_2_eq_2)
  ultimately show ?thesis
    by (subst extract_comments.simps)
       (simp add: hello_block_find hello_block_length substr_def size_sub_def
          hello_block_comment_def)
qed

lemma hello_block_interpret:
  "interpret_comment reenter comment src filename
       (''@DOC'' @ [NL] @ ''@DOC hello @END'' @ [NL] @ ''@END'') 0 False ctx
     = Inr (process_string ([NL] @ '' hello '') ctx)"
  by (simp add: interpret_comment.simps scan_fwd.simps Let_def isupper_def isalnum_def isdigit_def
        islower_def at0_def substr_def size_sub_def process_string_def)

lemma hello_block_run:
  assumes "pair_free next_scr"
  shows "process_source depth (hello_block @ next_scr) ctx False filename
     = Inr (process_string ([NL] @ '' hello '') ctx)"
  using hello_block_interpret
  by (subst process_source_unfold)
     (simp add: process_source_body_def hello_block_comments [OF assms] process_comment_def
        hello_block_comment_def)

text \<open>
  C4 (as the code has it). With the alias \<^verbatim>\<open>X\<close> registered as \<^verbatim>\<open>@DOC hello @END\<close>, an
  invocation of \<^verbatim>\<open>X\<close> in a comment that ends inside the source text appends a newline and
  then \<^verbatim>\<open> hello \<close>, the text between the two markers, to the active buffer: the replacement
  is reprocessed inside a block that opens with \<^verbatim>\<open>@DOC\<close> and a newline. Nothing else
  changes; the invocation does not close the documentation span of the comment it is in.
\<close>

theorem alias_expansion_appends:
  assumes "aliases ctx ''X'' = Some ''@DOC hello @END''" "cm_end_index comment < length src"
  shows "process_src_command (process_source depth) ''X'' args ctx comment src simplify filename
     = Inr (process_string ([NL] @ '' hello '') ctx)"
proof -
  from alias_source_text [OF assms(2), of "''@DOC hello @END''"] obtain next_scr where
    n: "pair_free next_scr" "alias_source ''@DOC hello @END'' src (cm_end_index comment)
      = Inr (hello_block @ next_scr)"
    by (auto simp: hello_block_def)
  have "strip ''X'' = ''X''" by code_simp
  with assms(1) n(2) hello_block_run [OF n(1), of depth ctx filename] show ?thesis
    by (subst process_src_command.simps) (simp add: at0_def)
qed

theorem alias_expansion_witness:
  "process_src_command (process_source 1) ''X'' [] hello_context hello_alias_comment
       hello_alias_src False ''a.cpp''
     = Inr (process_string ([NL] @ '' hello '') hello_context)"
  using alias_expansion_appends [of hello_context hello_alias_comment hello_alias_src 1 "[]" False
      "''a.cpp''"]
  by (simp add: hello_context_def hello_alias_comment_def hello_alias_src_def)

text \<open>
  C4 as stated fails: in the main buffer, the file that invokes \<^verbatim>\<open>@X\<close> between \<^verbatim>\<open>@DOC\<close> and
  \<^verbatim>\<open>@END\<close> leaves a blank, a newline, \<^verbatim>\<open> hello \<close> and the blank that follows the invocation;
  the file with \<^verbatim>\<open>@DOC hello @END\<close> written in its place leaves a blank and \<^verbatim>\<open> hello \<close>.
\<close>

theorem alias_not_inlining_counterexample:
  "map_sum id mainSection (process_source 1 hello_alias_src hello_context True ''a.cpp'')
     = Inr ('' '' @ [NL] @ '' hello  '')
   \<and> map_sum id mainSection (process_source 1 hello_inlined_src hello_context True ''a.cpp'')
     = Inr ''  hello ''"
  by code_simp

end
